theory Spec2Isabelle
  imports Main "HOL-Library.AList"
begin

section \<open>Data model\<close>

text \<open>
  The extractor of \<^verbatim>\<open>pdf_extractor.py\<close> produces one dictionary per page,
  \<^verbatim>\<open>{"page_number": page_num + 1, "text": text}\<close>. Python integers are unbounded
  (\<^typ>\<open>int\<close>). A Python \<^verbatim>\<open>str\<close> is modelled as \<^typ>\<open>string\<close>, every \<^typ>\<open>char\<close>
  standing for the code point of the same number (U+0000 to U+00FF).
\<close>

record page_record =
  page_number :: int
  text' :: string

text \<open>
  Exceptions are values. \<open>ValueError\<close> and \<open>IndexError\<close> are raised by the program
  itself (an unknown backend name, an index into an empty list); \<open>LibraryError\<close> stands
  for whatever a call into one of the two PDF libraries raises.
\<close>

datatype exn = ValueError string | IndexError | LibraryError string

text \<open>
  The PDF libraries are not part of the program, so an opened document is a parameter:
  \<open>page_count\<close> is what \<^verbatim>\<open>len(doc)\<close> (or \<^verbatim>\<open>len(pdf.pages)\<close>) returns, and
  \<open>page_text d i\<close> is the outcome of loading the page at 0-based index \<open>i\<close> and running
  the library's text extraction on it: either an exception or the extracted value.
  PyMuPDF's \<^verbatim>\<open>page.get_text()\<close> returns a \<^verbatim>\<open>str\<close>; pdfplumber's
  \<^verbatim>\<open>page.extract_text()\<close> returns a \<^verbatim>\<open>str\<close> or \<^verbatim>\<open>None\<close>.
\<close>

record 't document =
  page_count :: nat
  page_text :: "int \<Rightarrow> exn + 't"

text \<open>
  What opening \<^verbatim>\<open>self.pdf_path\<close> does with each library: an exception, or a document.
\<close>

record pdf_file =
  pymupdf_open :: "exn + string document"
  pdfplumber_open :: "exn + string option document"

text \<open>The extractor object; \<open>backend\<close> is the string chosen in \<^verbatim>\<open>__init__\<close>.\<close>

record extractor =
  pdf_path :: pdf_file
  backend :: string

section \<open>Page extraction\<close>

text \<open>
  The state threaded through the extraction functions is the number of document handles
  currently open. Opening a document adds one, \<^verbatim>\<open>doc.close()\<close> and leaving a
  \<^verbatim>\<open>with\<close> block remove it.

  The loop \<^verbatim>\<open>for page_num in range(start, min(end, total_pages))\<close> of
  \<^verbatim>\<open>_extract_with_pymupdf\<close>; the last argument is the list \<^verbatim>\<open>pages\<close> built so far.
  An exception of the library leaves the loop at once.
\<close>

fun pymupdf_loop :: "string document \<Rightarrow> int list \<Rightarrow> page_record list \<Rightarrow> exn + page_record list" where
  "pymupdf_loop doc [] pages = Inr pages"
| "pymupdf_loop doc (page_num # rest) pages =
     (case page_text doc page_num of
        Inl e \<Rightarrow> Inl e
      | Inr t \<Rightarrow> pymupdf_loop doc rest (pages @ [\<lparr>page_number = page_num + 1, text' = t\<rparr>]))"

text \<open>
  \<^verbatim>\<open>(start_page - 1) if start_page else 0\<close> and \<^verbatim>\<open>end_page if end_page else total_pages\<close>:
  \<^verbatim>\<open>None\<close> and \<^verbatim>\<open>0\<close> are both false.
\<close>

definition start_index :: "int option \<Rightarrow> int" where
  "start_index start_page =
     (case start_page of None \<Rightarrow> 0 | Some s \<Rightarrow> if s = 0 then 0 else s - 1)"

definition end_index :: "int option \<Rightarrow> int \<Rightarrow> int" where
  "end_index end_page total_pages =
     (case end_page of None \<Rightarrow> total_pages | Some e \<Rightarrow> if e = 0 then total_pages else e)"

text \<open>\<^verbatim>\<open>range(a, b)\<close> on integers.\<close>

definition py_range :: "int \<Rightarrow> int \<Rightarrow> int list" where
  "py_range a b = [a..b - 1]"

text \<open>
  \<^verbatim>\<open>_extract_with_pymupdf\<close>: the document is opened, the loop runs, and
  \<^verbatim>\<open>doc.close()\<close> is the statement after the loop, so it runs only when the loop
  finishes without an exception.
\<close>

definition extract_with_pymupdf ::
  "extractor \<Rightarrow> int option \<Rightarrow> int option \<Rightarrow> nat \<Rightarrow> (exn + page_record list) \<times> nat" where
  "extract_with_pymupdf self start_page end_page handles =
     (case pymupdf_open (pdf_path self) of
        Inl e \<Rightarrow> (Inl e, handles)
      | Inr doc \<Rightarrow>
          (let opened = handles + 1;
               total_pages = int (page_count doc);
               start = start_index start_page;
               end' = end_index end_page total_pages
           in case pymupdf_loop doc (py_range start (min end' total_pages)) [] of
                Inl e \<Rightarrow> (Inl e, opened)
              | Inr pages \<Rightarrow> (Inr pages, opened - 1)))"

text \<open>
  \<^verbatim>\<open>text or ""\<close>: \<^verbatim>\<open>None\<close> and the empty string are false, anything else is kept.
\<close>

definition text_or_empty :: "string option \<Rightarrow> string" where
  "text_or_empty t = (case t of None \<Rightarrow> [] | Some s \<Rightarrow> if s = [] then [] else s)"

fun pdfplumber_loop ::
  "string option document \<Rightarrow> int list \<Rightarrow> page_record list \<Rightarrow> exn + page_record list" where
  "pdfplumber_loop pdf [] pages = Inr pages"
| "pdfplumber_loop pdf (page_num # rest) pages =
     (case page_text pdf page_num of
        Inl e \<Rightarrow> Inl e
      | Inr t \<Rightarrow>
          pdfplumber_loop pdf rest
            (pages @ [\<lparr>page_number = page_num + 1, text' = text_or_empty t\<rparr>]))"

text \<open>
  \<^verbatim>\<open>_extract_with_pdfplumber\<close>: the loop runs inside
  \<^verbatim>\<open>with pdfplumber.open(self.pdf_path) as pdf\<close>, which closes the document when the
  block is left, by an exception too.
\<close>

definition extract_with_pdfplumber ::
  "extractor \<Rightarrow> int option \<Rightarrow> int option \<Rightarrow> nat \<Rightarrow> (exn + page_record list) \<times> nat" where
  "extract_with_pdfplumber self start_page end_page handles =
     (case pdfplumber_open (pdf_path self) of
        Inl e \<Rightarrow> (Inl e, handles)
      | Inr pdf \<Rightarrow>
          (let opened = handles + 1;
               total_pages = int (page_count pdf);
               start = start_index start_page;
               end' = end_index end_page total_pages
           in case pdfplumber_loop pdf (py_range start (min end' total_pages)) [] of
                Inl e \<Rightarrow> (Inl e, opened - 1)
              | Inr pages \<Rightarrow> (Inr pages, opened - 1)))"

definition extract_pages ::
  "extractor \<Rightarrow> int option \<Rightarrow> int option \<Rightarrow> nat \<Rightarrow> (exn + page_record list) \<times> nat" where
  "extract_pages self start_page end_page handles =
     (if backend self = ''pymupdf'' then extract_with_pymupdf self start_page end_page handles
      else if backend self = ''pdfplumber'' then
        extract_with_pdfplumber self start_page end_page handles
      else (Inl (ValueError (''Unknown backend: '' @ backend self)), handles))"

section \<open>Python string operations used by the section locator\<close>

text \<open>
  \<^verbatim>\<open>str.isspace\<close> on one character: the code points below U+0100 that Python treats
  as whitespace in \<^verbatim>\<open>strip()\<close> and \<^verbatim>\<open>split()\<close>.
\<close>

definition isspace :: "char \<Rightarrow> bool" where
  "isspace c \<longleftrightarrow>
     c \<in> set [CHR 0x09, CHR 0x0A, CHR 0x0B, CHR 0x0C, CHR 0x0D, CHR 0x1C, CHR 0x1D,
              CHR 0x1E, CHR 0x1F, CHR 0x20, CHR 0x85, CHR 0xA0]"

text \<open>\<^verbatim>\<open>s.startswith(p)\<close> for one prefix and for a tuple of prefixes.\<close>

definition startswith :: "string \<Rightarrow> string \<Rightarrow> bool" where
  "startswith s p \<longleftrightarrow> take (length p) s = p"

definition startswith_any :: "string \<Rightarrow> string list \<Rightarrow> bool" where
  "startswith_any s ps \<longleftrightarrow> list_ex (startswith s) ps"

text \<open>\<^verbatim>\<open>tuple('0123456789')\<close>: the ten one-character strings.\<close>

definition digit_prefixes :: "string list" where
  "digit_prefixes = map (\<lambda>c. [c]) ''0123456789''"

text \<open>\<^verbatim>\<open>pat in s\<close>: \<open>pat\<close> occurs in \<open>s\<close> as a contiguous substring.\<close>

fun contains :: "string \<Rightarrow> string \<Rightarrow> bool" where
  "contains pat [] \<longleftrightarrow> pat = []"
| "contains pat (c # cs) \<longleftrightarrow> startswith (c # cs) pat \<or> contains pat cs"

text \<open>\<^verbatim>\<open>s.split(sep)\<close> for a one-character separator: never an empty list.\<close>

fun split_char :: "char \<Rightarrow> string \<Rightarrow> string list" where
  "split_char sep [] = [[]]"
| "split_char sep (c # cs) =
     (if c = sep then [] # split_char sep cs
      else (case split_char sep cs of
              [] \<Rightarrow> [[c]]
            | l # ls \<Rightarrow> (c # l) # ls))"

text \<open>\<^verbatim>\<open>s.strip()\<close>: whitespace removed at both ends.\<close>

definition strip :: "string \<Rightarrow> string" where
  "strip s = rev (dropWhile isspace (rev (dropWhile isspace s)))"

text \<open>\<^verbatim>\<open>s.split()\<close>: the maximal runs of non-whitespace characters, in order.\<close>

function split_ws :: "string \<Rightarrow> string list" where
  "split_ws s =
     (case dropWhile isspace s of
        [] \<Rightarrow> []
      | c # cs \<Rightarrow>
          (c # takeWhile (\<lambda>x. \<not> isspace x) cs) # split_ws (dropWhile (\<lambda>x. \<not> isspace x) cs))"
  by pat_completeness auto
termination
proof (relation "measure length")
  fix s :: string and c cs
  assume a: "dropWhile isspace s = c # cs"
  have "length (dropWhile (\<lambda>x. \<not> isspace x) cs) \<le> length cs"
    by (rule length_dropWhile_le)
  also have "length cs < length (dropWhile isspace s)"
    by (simp add: a)
  also have "length (dropWhile isspace s) \<le> length s"
    by (rule length_dropWhile_le)
  finally show "(dropWhile (\<lambda>x. \<not> isspace x) cs, s) \<in> measure length"
    by simp
qed simp

declare split_ws.simps [simp del]

section \<open>Section locator\<close>

text \<open>
  The inner loop \<^verbatim>\<open>for line in lines\<close> of \<^verbatim>\<open>find_section\<close>. It returns
  \<open>Some\<close> of the pair that the \<^verbatim>\<open>return\<close> statement inside it returns, and \<open>None\<close>
  when it runs to its end.
\<close>

fun line_loop :: "string \<Rightarrow> int \<Rightarrow> page_record \<Rightarrow> string list \<Rightarrow> (int \<times> int) option" where
  "line_loop section_pattern section_start page_data [] = None"
| "line_loop section_pattern section_start page_data (line # lines) =
     (if startswith_any (strip line) digit_prefixes then
        (case split_ws line of
           [] \<Rightarrow> line_loop section_pattern section_start page_data lines
         | part # parts \<Rightarrow>
             if part \<noteq> section_pattern then Some (section_start, page_number page_data - 1)
             else line_loop section_pattern section_start page_data lines)
      else line_loop section_pattern section_start page_data lines)"

text \<open>
  The loop \<^verbatim>\<open>for i, page_data in enumerate(pages)\<close> together with the statements after
  it. The second argument is the whole list (read by \<^verbatim>\<open>pages[-1]\<close>), the third the pages
  still to visit, the fourth the variable \<^verbatim>\<open>section_start\<close>. Indexing an empty list
  with \<^verbatim>\<open>-1\<close> raises \<^verbatim>\<open>IndexError\<close>.
\<close>

fun page_loop ::
  "string \<Rightarrow> page_record list \<Rightarrow> page_record list \<Rightarrow> int option \<Rightarrow> exn + (int \<times> int) option" where
  "page_loop section_pattern pages [] section_start =
     (case section_start of
        Some s \<Rightarrow> (if pages = [] then Inl IndexError else Inr (Some (s, page_number (last pages))))
      | None \<Rightarrow> Inr None)"
| "page_loop section_pattern pages (page_data # rest) section_start =
     (case section_start of
        None \<Rightarrow>
          if contains section_pattern (text' page_data)
          then page_loop section_pattern pages rest (Some (page_number page_data))
          else page_loop section_pattern pages rest None
      | Some s \<Rightarrow>
          (case line_loop section_pattern s page_data (split_char (CHR 0x0A) (text' page_data)) of
             Some r \<Rightarrow> Inr (Some r)
           | None \<Rightarrow> page_loop section_pattern pages rest (Some s)))"

definition find_section ::
  "extractor \<Rightarrow> string \<Rightarrow> int option \<Rightarrow> int option \<Rightarrow> nat \<Rightarrow> (exn + (int \<times> int) option) \<times> nat" where
  "find_section self section_pattern start_page end_page handles =
     (case extract_pages self start_page end_page handles of
        (Inl e, handles') \<Rightarrow> (Inl e, handles')
      | (Inr pages, handles') \<Rightarrow> (page_loop section_pattern pages pages None, handles'))"

section \<open>Formatters\<close>

text \<open>
  \<^verbatim>\<open>str(n)\<close> for an integer, as the f-string of \<^verbatim>\<open>extract_to_text\<close> and the JSON
  encoder call it: decimal digits, with a minus sign when negative. CPython refuses the
  conversion with \<^verbatim>\<open>ValueError\<close> when the number has more decimal digits than
  \<^verbatim>\<open>sys.get_int_max_str_digits()\<close>, 4300 unless the interpreter is configured otherwise.
\<close>

definition digit_char :: "nat \<Rightarrow> char" where
  "digit_char d = ''0123456789'' ! d"

fun str_nat :: "nat \<Rightarrow> string" where
  "str_nat n = (if n < 10 then [digit_char n] else str_nat (n div 10) @ [digit_char (n mod 10)])"

declare str_nat.simps [simp del]

definition int_repr :: "int \<Rightarrow> string" where
  "int_repr i = (if i < 0 then CHR ''-'' # str_nat (nat (- i)) else str_nat (nat i))"

definition max_str_digits :: nat where
  "max_str_digits = 4300"

definition str_int :: "int \<Rightarrow> exn + string" where
  "str_int i =
     (if max_str_digits < length (str_nat (nat \<bar>i\<bar>))
      then Inl (ValueError ''Exceeds the limit (4300 digits) for integer string conversion'')
      else Inr (int_repr i))"

text \<open>\<^verbatim>\<open>sep.join(xs)\<close>.\<close>

fun join :: "string \<Rightarrow> string list \<Rightarrow> string" where
  "join sep [] = []"
| "join sep [x] = x"
| "join sep (x # y # ys) = x @ sep @ join sep (y # ys)"

text \<open>\<^verbatim>\<open>'='*60\<close>.\<close>

definition separator :: string where
  "separator = replicate 60 (CHR ''='')"

text \<open>
  The loop of \<^verbatim>\<open>extract_to_text\<close>; the last argument is the list \<^verbatim>\<open>lines\<close>. The
  f-string \<^verbatim>\<open>f"Page {page_data['page_number']}"\<close> converts the page number, and an
  exception of that conversion leaves the loop.
\<close>

fun text_loop :: "bool \<Rightarrow> page_record list \<Rightarrow> string list \<Rightarrow> exn + string list" where
  "text_loop include_page_numbers [] lines = Inr lines"
| "text_loop include_page_numbers (page_data # rest) lines =
     (if include_page_numbers then
        (case str_int (page_number page_data) of
           Inl e \<Rightarrow> Inl e
         | Inr n \<Rightarrow>
             text_loop include_page_numbers rest
               (lines @ [CHR 0x0A # separator] @ [''Page '' @ n] @ [separator @ [CHR 0x0A]]
                      @ [text' page_data]))
      else text_loop include_page_numbers rest (lines @ [text' page_data]))"

definition extract_to_text :: "page_record list \<Rightarrow> bool \<Rightarrow> exn + string" where
  "extract_to_text pages include_page_numbers =
     (case text_loop include_page_numbers pages [] of
        Inl e \<Rightarrow> Inl e
      | Inr lines \<Rightarrow> Inr (join [CHR 0x0A] lines))"

section \<open>Auxiliary notions for stating the properties\<close>

text \<open>
  The page count of the document as the selected backend sees it, when the backend is
  known and the file opens.
\<close>

definition opened_page_count :: "extractor \<Rightarrow> nat option" where
  "opened_page_count self =
     (if backend self = ''pymupdf'' then
        (case pymupdf_open (pdf_path self) of Inl e \<Rightarrow> None | Inr doc \<Rightarrow> Some (page_count doc))
      else if backend self = ''pdfplumber'' then
        (case pdfplumber_open (pdf_path self) of Inl e \<Rightarrow> None | Inr pdf \<Rightarrow> Some (page_count pdf))
      else None)"

text \<open>
  \<open>page_raises self i\<close>: with the selected backend, reading the page at 0-based index
  \<open>i\<close> raises (or there is no document to read from).
\<close>

definition page_raises :: "extractor \<Rightarrow> int \<Rightarrow> bool" where
  "page_raises self i =
     (if backend self = ''pymupdf'' then
        (case pymupdf_open (pdf_path self) of
           Inl e \<Rightarrow> True
         | Inr doc \<Rightarrow> (case page_text doc i of Inl e \<Rightarrow> True | Inr t \<Rightarrow> False))
      else if backend self = ''pdfplumber'' then
        (case pdfplumber_open (pdf_path self) of
           Inl e \<Rightarrow> True
         | Inr pdf \<Rightarrow> (case page_text pdf i of Inl e \<Rightarrow> True | Inr t \<Rightarrow> False))
      else True)"

text \<open>
  Two files for concrete runs: a three-page document whose middle page has no text layer
  (PyMuPDF reports the empty string, pdfplumber reports \<^verbatim>\<open>None\<close>), and a one-page
  document that opens but whose page cannot be read, as a protected or damaged file.
\<close>

definition sample_file :: pdf_file where
  "sample_file =
     \<lparr>pymupdf_open = Inr \<lparr>page_count = 3, page_text = (\<lambda>i. Inr (if i = 1 then [] else ''body''))\<rparr>,
      pdfplumber_open =
        Inr \<lparr>page_count = 3, page_text = (\<lambda>i. Inr (if i = 1 then None else Some ''body''))\<rparr>\<rparr>"

definition unreadable_file :: pdf_file where
  "unreadable_file =
     \<lparr>pymupdf_open =
        Inr \<lparr>page_count = 1, page_text = (\<lambda>i. Inl (LibraryError ''page unreadable''))\<rparr>,
      pdfplumber_open =
        Inr \<lparr>page_count = 1, page_text = (\<lambda>i. Inl (LibraryError ''page unreadable''))\<rparr>\<rparr>"

text \<open>
  The words of the section locator's description, stated without the program's own
  string operations: a line ends the section when its first non-whitespace character is
  an ASCII digit and its first whitespace-delimited token is not the label.
\<close>

definition is_digit :: "char \<Rightarrow> bool" where
  "is_digit c \<longleftrightarrow> c \<in> set ''0123456789''"

definition first_token :: "string \<Rightarrow> string" where
  "first_token line = takeWhile (\<lambda>c. \<not> isspace c) (dropWhile isspace line)"

definition next_section_line :: "string \<Rightarrow> string \<Rightarrow> bool" where
  "next_section_line label line \<longleftrightarrow>
     (case dropWhile isspace line of [] \<Rightarrow> False | c # cs \<Rightarrow> is_digit c) \<and>
     first_token line \<noteq> label"

definition has_next_section_line :: "string \<Rightarrow> string \<Rightarrow> bool" where
  "has_next_section_line label txt \<longleftrightarrow>
     list_ex (next_section_line label) (split_char (CHR 0x0A) txt)"

text \<open>
  A six-page report: pages 1 to 4 are introduction, page 5 opens section 3.2, and the
  second line of page 6 opens section 3.3.
\<close>

definition report_file :: pdf_file where
  "report_file =
     \<lparr>pymupdf_open =
        Inr \<lparr>page_count = 6,
             page_text = (\<lambda>i. Inr (if i = 4 then ''3.2 Methods'' @ [CHR 0x0A] @ ''We measure''
                                   else if i = 5 then ''continued'' @ [CHR 0x0A] @ '' 3.3 Results''
                                   else ''Introduction''))\<rparr>,
      pdfplumber_open = Inl (LibraryError ''not installed'')\<rparr>"

section \<open>The JSON formatter\<close>

text \<open>
  \<^verbatim>\<open>extract_to_json\<close> is the single call
  \<^verbatim>\<open>json.dumps(pages, indent=2, ensure_ascii=False)\<close>. Python's \<^verbatim>\<open>json\<close> package belongs
  to the standard library, not to the program; its encoder and its decoder are written
  out here after CPython's \<^verbatim>\<open>json.encoder\<close>, \<^verbatim>\<open>json.decoder\<close> and \<^verbatim>\<open>json.scanner\<close>.

  The Python values that JSON text denotes. A dictionary is the list of its items in
  insertion order. Floating-point numbers are left out.
\<close>

datatype json = JNull | JBool bool | JInt int | JStr string | JList "json list"
  | JDict "(string \<times> json) list"

text \<open>
  The value of one page, \<^verbatim>\<open>{"page_number": page_num + 1, "text": text}\<close>, and of the
  list \<^verbatim>\<open>pages\<close>.
\<close>

definition py_page :: "page_record \<Rightarrow> json" where
  "py_page p = JDict [(''page_number'', JInt (page_number p)), (''text'', JStr (text' p))]"

definition py_pages :: "page_record list \<Rightarrow> json" where
  "py_pages pages = JList (map py_page pages)"

text \<open>
  The encoder for strings with \<^verbatim>\<open>ensure_ascii=False\<close>: the quote, the backslash and the
  control characters below U+0020 are escaped (the latter as \<^verbatim>\<open>\u00xx\<close> with lower-case
  hexadecimal digits unless they have a short form); every other character, ASCII or
  not, is copied as it is.
\<close>

definition hex_char :: "nat \<Rightarrow> char" where
  "hex_char d = ''0123456789abcdef'' ! d"

definition escape_char :: "char \<Rightarrow> string" where
  "escape_char c =
     (if c = CHR 0x22 then [CHR 0x5C, CHR 0x22]
      else if c = CHR 0x5C then [CHR 0x5C, CHR 0x5C]
      else if c = CHR 0x0A then [CHR 0x5C, CHR ''n'']
      else if c = CHR 0x0D then [CHR 0x5C, CHR ''r'']
      else if c = CHR 0x09 then [CHR 0x5C, CHR ''t'']
      else if c = CHR 0x08 then [CHR 0x5C, CHR ''b'']
      else if c = CHR 0x0C then [CHR 0x5C, CHR ''f'']
      else if (of_char c :: nat) < 32 then
        [CHR 0x5C, CHR ''u'', CHR ''0'', CHR ''0'',
         hex_char (of_char c div 16), hex_char (of_char c mod 16)]
      else [c])"

definition encode_basestring :: "string \<Rightarrow> string" where
  "encode_basestring s = [CHR 0x22] @ concat (map escape_char s) @ [CHR 0x22]"

text \<open>
  With an indentation width, a non-empty list or dictionary is written one item per line:
  a newline and \<open>indent * level\<close> spaces come before each item and before the closing
  bracket, the item separator is a comma and the key separator a colon and a space.
\<close>

definition newline_indent :: "nat \<Rightarrow> nat \<Rightarrow> string" where
  "newline_indent indent level = CHR 0x0A # replicate (indent * level) (CHR '' '')"

text \<open>
  The chunks of the items of a container, in order; the first item that cannot be
  encoded ends the encoding with its exception.
\<close>

fun sequence_results :: "(exn + 'a) list \<Rightarrow> exn + 'a list" where
  "sequence_results [] = Inr []"
| "sequence_results (r # rs) =
     (case r of
        Inl e \<Rightarrow> Inl e
      | Inr x \<Rightarrow> (case sequence_results rs of Inl e \<Rightarrow> Inl e | Inr xs \<Rightarrow> Inr (x # xs)))"

fun iterencode :: "nat \<Rightarrow> nat \<Rightarrow> json \<Rightarrow> exn + string" where
  "iterencode indent level JNull = Inr ''null''"
| "iterencode indent level (JBool b) = Inr (if b then ''true'' else ''false'')"
| "iterencode indent level (JInt i) = str_int i"
| "iterencode indent level (JStr s) = Inr (encode_basestring s)"
| "iterencode indent level (JList lst) =
     (if lst = [] then Inr ''[]''
      else
        (case sequence_results (map (iterencode indent (level + 1)) lst) of
           Inl e \<Rightarrow> Inl e
         | Inr chunks \<Rightarrow>
             Inr (''['' @ newline_indent indent (level + 1)
                  @ join ('','' @ newline_indent indent (level + 1)) chunks
                  @ newline_indent indent level @ '']'')))"
| "iterencode indent level (JDict dct) =
     (if dct = [] then Inr ''{}''
      else
        (case sequence_results
                (map (\<lambda>(key, v).
                        case iterencode indent (level + 1) v of
                          Inl e \<Rightarrow> Inl e
                        | Inr chunk \<Rightarrow> Inr (encode_basestring key @ '': '' @ chunk)) dct) of
           Inl e \<Rightarrow> Inl e
         | Inr chunks \<Rightarrow>
             Inr (''{'' @ newline_indent indent (level + 1)
                  @ join ('','' @ newline_indent indent (level + 1)) chunks
                  @ newline_indent indent level @ ''}'')))"

definition json_dumps :: "json \<Rightarrow> nat \<Rightarrow> exn + string" where
  "json_dumps obj indent = iterencode indent 0 obj"

definition extract_to_json :: "page_record list \<Rightarrow> exn + string" where
  "extract_to_json pages = json_dumps (py_pages pages) 2"

text \<open>
  The decoder. \<open>JSONDecodeError\<close> is the exception of \<^verbatim>\<open>json.loads\<close>. \<open>Unmodelled\<close>
  marks the inputs on which Python returns a value that this model has no term for: a
  number with a fraction or an exponent, \<^verbatim>\<open>NaN\<close>, \<^verbatim>\<open>Infinity\<close>, and a \<^verbatim>\<open>\uXXXX\<close> escape
  above U+00FF. It is also the result when the recursion budget is used up.
  \<open>DigitLimitError\<close> is the \<^verbatim>\<open>ValueError\<close> of the conversion of an integer literal with
  more than 4300 digits.
\<close>

datatype json_error = JSONDecodeError | DigitLimitError | Unmodelled

definition is_json_ws :: "char \<Rightarrow> bool" where
  "is_json_ws c \<longleftrightarrow> c \<in> set [CHR '' '', CHR 0x09, CHR 0x0A, CHR 0x0D]"

definition skip_ws :: "string \<Rightarrow> string" where
  "skip_ws s = dropWhile is_json_ws s"

definition hex_value :: "char \<Rightarrow> nat option" where
  "hex_value c =
     map_of (zip ''0123456789abcdefABCDEF''
                 [0, 1, 2, 3, 4, 5, 6, 7, 8, 9, 10, 11, 12, 13, 14, 15, 10, 11, 12, 13, 14, 15]) c"

definition unescape :: "char \<Rightarrow> char option" where
  "unescape c =
     map_of [(CHR 0x22, CHR 0x22), (CHR 0x5C, CHR 0x5C), (CHR ''/'', CHR ''/''),
             (CHR ''b'', CHR 0x08), (CHR ''f'', CHR 0x0C), (CHR ''n'', CHR 0x0A),
             (CHR ''r'', CHR 0x0D), (CHR ''t'', CHR 0x09)] c"

text \<open>
  \<^verbatim>\<open>scanstring\<close>, called after the opening quote: the characters up to the closing
  quote with the escapes resolved, and the input after the closing quote. A raw control
  character is an error (strict mode).
\<close>

fun scanstring :: "string \<Rightarrow> string \<Rightarrow> json_error + (string \<times> string)" where
  "scanstring [] acc = Inl JSONDecodeError"
| "scanstring (c # cs) acc =
     (if c = CHR 0x22 then Inr (acc, cs)
      else if c = CHR 0x5C then
        (case cs of
           [] \<Rightarrow> Inl JSONDecodeError
         | esc # cs1 \<Rightarrow>
             if esc = CHR ''u'' then
               (case cs1 of
                  h1 # h2 # h3 # h4 # cs2 \<Rightarrow>
                    (case (hex_value h1, hex_value h2, hex_value h3, hex_value h4) of
                       (Some a, Some b, Some c, Some d) \<Rightarrow>
                         if ((a * 16 + b) * 16 + c) * 16 + d < 256
                         then scanstring cs2 (acc @ [char_of (((a * 16 + b) * 16 + c) * 16 + d)])
                         else Inl Unmodelled
                     | _ \<Rightarrow> Inl JSONDecodeError)
                | _ \<Rightarrow> Inl JSONDecodeError)
             else
               (case unescape esc of
                  None \<Rightarrow> Inl JSONDecodeError
                | Some ch \<Rightarrow> scanstring cs1 (acc @ [ch])))
      else if (of_char c :: nat) < 32 then Inl JSONDecodeError
      else scanstring cs (acc @ [c]))"

text \<open>
  Numbers: an optional minus sign, then \<^verbatim>\<open>0\<close> or a digit string without leading zero.
  When a fraction or an exponent follows, Python builds a float.
\<close>

definition digit_value :: "char \<Rightarrow> nat" where
  "digit_value c = (of_char c :: nat) - 48"

definition nat_of_digits :: "string \<Rightarrow> nat" where
  "nat_of_digits ds = foldl (\<lambda>a c. 10 * a + digit_value c) 0 ds"

definition is_float_tail :: "string \<Rightarrow> bool" where
  "is_float_tail s =
     (case s of
        [] \<Rightarrow> False
      | c # cs \<Rightarrow>
          if c = CHR ''.'' then (case cs of [] \<Rightarrow> False | d # _ \<Rightarrow> is_digit d)
          else if c = CHR ''e'' \<or> c = CHR ''E'' then
            (case cs of
               [] \<Rightarrow> False
             | d # ds \<Rightarrow>
                 if d = CHR ''+'' \<or> d = CHR ''-'' then (case ds of [] \<Rightarrow> False | x # _ \<Rightarrow> is_digit x)
                 else is_digit d)
          else False)"

definition match_number :: "string \<Rightarrow> json_error + (json \<times> string)" where
  "match_number s =
     (let neg = (case s of [] \<Rightarrow> False | c # _ \<Rightarrow> c = CHR ''-'');
          s1 = (if neg then tl s else s)
      in case s1 of
           [] \<Rightarrow> Inl JSONDecodeError
         | c # cs \<Rightarrow>
             if is_digit c then
               (let ds = (if c = CHR ''0'' then [c] else takeWhile is_digit s1);
                    rest = (if c = CHR ''0'' then cs else dropWhile is_digit s1)
                in if is_float_tail rest then Inl Unmodelled
                   else if max_str_digits < length ds then Inl DigitLimitError
                   else Inr (JInt (if neg then - int (nat_of_digits ds) else int (nat_of_digits ds)),
                             rest))
             else if neg \<and> startswith s1 ''Infinity'' then Inl Unmodelled
             else Inl JSONDecodeError)"

text \<open>
  \<^verbatim>\<open>scan_once\<close> reads one value at the start of the input; \<open>parse_array\<close> and
  \<open>parse_object\<close> are the loops of \<^verbatim>\<open>JSONArray\<close> and \<^verbatim>\<open>JSONObject\<close> after the opening
  bracket and the test for the empty container. The first argument bounds the number
  of nested calls; \<open>json_loads\<close> starts with more than the length of the input.
\<close>

fun scan_once :: "nat \<Rightarrow> string \<Rightarrow> json_error + (json \<times> string)"
  and parse_array :: "nat \<Rightarrow> string \<Rightarrow> json list \<Rightarrow> json_error + (json \<times> string)"
  and parse_object :: "nat \<Rightarrow> string \<Rightarrow> (string \<times> json) list \<Rightarrow> json_error + (json \<times> string)"
where
  "scan_once 0 s = Inl Unmodelled"
| "scan_once (Suc fuel) [] = Inl JSONDecodeError"
| "scan_once (Suc fuel) (c # cs) =
     (if c = CHR 0x22 then
        (case scanstring cs [] of Inl e \<Rightarrow> Inl e | Inr (str, rest) \<Rightarrow> Inr (JStr str, rest))
      else if c = CHR ''{'' then
        (case skip_ws cs of
           [] \<Rightarrow> Inl JSONDecodeError
         | d # ds \<Rightarrow> if d = CHR ''}'' then Inr (JDict [], ds) else parse_object fuel (d # ds) [])
      else if c = CHR ''['' then
        (case skip_ws cs of
           [] \<Rightarrow> Inl JSONDecodeError
         | d # ds \<Rightarrow> if d = CHR '']'' then Inr (JList [], ds) else parse_array fuel (d # ds) [])
      else if startswith (c # cs) ''null'' then Inr (JNull, drop 4 (c # cs))
      else if startswith (c # cs) ''true'' then Inr (JBool True, drop 4 (c # cs))
      else if startswith (c # cs) ''false'' then Inr (JBool False, drop 5 (c # cs))
      else if startswith (c # cs) ''NaN'' \<or> startswith (c # cs) ''Infinity'' then Inl Unmodelled
      else match_number (c # cs))"
| "parse_array 0 s values = Inl Unmodelled"
| "parse_array (Suc fuel) s values =
     (case scan_once fuel s of
        Inl e \<Rightarrow> Inl e
      | Inr (v, rest) \<Rightarrow>
          (case skip_ws rest of
             [] \<Rightarrow> Inl JSONDecodeError
           | d # ds \<Rightarrow>
               if d = CHR '']'' then Inr (JList (values @ [v]), ds)
               else if d = CHR '','' then parse_array fuel (skip_ws ds) (values @ [v])
               else Inl JSONDecodeError))"
| "parse_object 0 s pairs = Inl Unmodelled"
| "parse_object (Suc fuel) s pairs =
     (case s of
        [] \<Rightarrow> Inl JSONDecodeError
      | q # s1 \<Rightarrow>
          if q \<noteq> CHR 0x22 then Inl JSONDecodeError
          else
            (case scanstring s1 [] of
               Inl e \<Rightarrow> Inl e
             | Inr (key, s2) \<Rightarrow>
                 (case skip_ws s2 of
                    [] \<Rightarrow> Inl JSONDecodeError
                  | colon # s3 \<Rightarrow>
                      if colon \<noteq> CHR '':'' then Inl JSONDecodeError
                      else
                        (case scan_once fuel (skip_ws s3) of
                           Inl e \<Rightarrow> Inl e
                         | Inr (v, s4) \<Rightarrow>
                             (case skip_ws s4 of
                                [] \<Rightarrow> Inl JSONDecodeError
                              | d # ds \<Rightarrow>
                                  if d = CHR ''}'' then Inr (JDict (AList.update key v pairs), ds)
                                  else if d = CHR '','' then
                                    parse_object fuel (skip_ws ds) (AList.update key v pairs)
                                  else Inl JSONDecodeError)))))"

text \<open>
  \<^verbatim>\<open>json.loads\<close>: whitespace, one value, whitespace, end of input.
\<close>

definition json_loads :: "string \<Rightarrow> json_error + json" where
  "json_loads s =
     (case scan_once (Suc (length s)) (skip_ws s) of
        Inl e \<Rightarrow> Inl e
      | Inr (obj, rest) \<Rightarrow> if skip_ws rest = [] then Inr obj else Inl JSONDecodeError)"

text \<open>A character at which an integer literal ends.\<close>

definition number_end :: "char \<Rightarrow> bool" where
  "number_end c \<longleftrightarrow> \<not> is_digit c \<and> c \<noteq> CHR ''.'' \<and> c \<noteq> CHR ''e'' \<and> c \<noteq> CHR ''E''"

text \<open>
  Decimal numerals, stated without the program's conversion: a non-empty string of ASCII
  digits, without a leading zero unless it is the single digit \<open>0\<close>, whose value in base
  ten is the number; for a negative integer a minus sign comes first.
\<close>

definition decimal_numeral :: "string \<Rightarrow> nat \<Rightarrow> bool" where
  "decimal_numeral ds n \<longleftrightarrow>
     ds \<noteq> [] \<and> list_all (\<lambda>c. c \<in> set ''0123456789'') ds \<and>
     (hd ds = CHR ''0'' \<longrightarrow> ds = ''0'') \<and>
     horner_sum (\<lambda>c. of_char c - 48) 10 (rev ds) = n"

definition int_numeral :: "string \<Rightarrow> int \<Rightarrow> bool" where
  "int_numeral s i \<longleftrightarrow>
     (if i < 0 then take 1 s = ''-'' \<and> decimal_numeral (drop 1 s) (nat (- i))
      else decimal_numeral s (nat i))"

text \<open>
  The text that the JSON encoder writes for the value of one page at a nesting level,
  the page number converted.
\<close>

definition page_chunk :: "nat \<Rightarrow> nat \<Rightarrow> page_record \<Rightarrow> string" where
  "page_chunk indent level p =
     ''{'' @ newline_indent indent (level + 1) @
     encode_basestring ''page_number'' @ '': '' @ int_repr (page_number p) @
     '','' @ newline_indent indent (level + 1) @
     encode_basestring ''text'' @ '': '' @ encode_basestring (text' p) @
     newline_indent indent level @ ''}''"

section \<open>Properties of page extraction\<close>

text \<open>
  Each loop returns normally exactly when no page of its range raises, and then appends
  one record per index, in order.
\<close>

lemma pymupdf_loop_Inr:
  "pymupdf_loop doc ns acc = Inr ps \<longleftrightarrow>
     (\<forall>n\<in>set ns. \<exists>t. page_text doc n = Inr t) \<and>
     ps = acc @ map (\<lambda>n. \<lparr>page_number = n + 1, text' = projr (page_text doc n)\<rparr>) ns"
  by (induction ns arbitrary: acc) (auto split: sum.splits)

lemma pdfplumber_loop_Inr:
  "pdfplumber_loop doc ns acc = Inr ps \<longleftrightarrow>
     (\<forall>n\<in>set ns. \<exists>t. page_text doc n = Inr t) \<and>
     ps = acc @ map (\<lambda>n. \<lparr>page_number = n + 1, text' = text_or_empty (projr (page_text doc n))\<rparr>) ns"
  by (induction ns arbitrary: acc) (auto split: sum.splits)

lemma pymupdf_loop_page_numbers:
  "pymupdf_loop doc ns acc = Inr ps \<Longrightarrow>
     map page_number ps = map page_number acc @ map (\<lambda>n. n + 1) ns"
  by (induction ns arbitrary: acc) (auto split: sum.splits)

lemma pdfplumber_loop_page_numbers:
  "pdfplumber_loop pdf ns acc = Inr ps \<Longrightarrow>
     map page_number ps = map page_number acc @ map (\<lambda>n. n + 1) ns"
  by (induction ns arbitrary: acc) (auto split: sum.splits)

lemma not_Inl_iff_Inr: "(\<forall>e. x \<noteq> Inl e) \<longleftrightarrow> (\<exists>t. x = Inr t)"
  by (cases x) auto

lemma map_Suc_upto: "map (\<lambda>n. n + 1) [a..b] = [a + 1..b + 1]"
  by (rule nth_equalityI) (auto simp: nth_upto)

lemma page_numbers_py_range: "map (\<lambda>n. n + 1) (py_range a b) = [a + 1..b]"
  using map_Suc_upto [of a "b - 1"] by (simp add: py_range_def)

lemma extract_pages_page_numbers:
  assumes "extract_pages self start_page end_page handles = (Inr ps, handles')"
    and "opened_page_count self = Some n"
  shows "handles' = handles \<and>
         map page_number ps =
           [start_index start_page + 1..min (end_index end_page (int n)) (int n)]"
proof (cases "backend self = ''pymupdf''")
  case True
  with assms obtain doc where d: "pymupdf_open (pdf_path self) = Inr doc" "page_count doc = n"
    by (auto simp: opened_page_count_def split: sum.splits)
  from assms(1) True d show ?thesis
    by (auto simp: extract_pages_def extract_with_pymupdf_def Let_def
        page_numbers_py_range split: sum.splits dest: pymupdf_loop_page_numbers)
next
  case False
  with assms have b: "backend self = ''pdfplumber''"
    by (auto simp: opened_page_count_def split: if_splits)
  with assms obtain pdf where d: "pdfplumber_open (pdf_path self) = Inr pdf" "page_count pdf = n"
    by (auto simp: opened_page_count_def split: sum.splits)
  from assms(1) b d show ?thesis
    by (auto simp: extract_pages_def extract_with_pdfplumber_def Let_def
        page_numbers_py_range split: sum.splits dest: pdfplumber_loop_page_numbers)
qed

lemma extract_pages_returns:
  assumes "opened_page_count self = Some n"
    and "\<forall>i\<in>set (py_range (start_index start_page) (min (end_index end_page (int n)) (int n))).
           \<not> page_raises self i"
  shows "\<exists>ps. extract_pages self start_page end_page handles = (Inr ps, handles)"
proof (cases "backend self = ''pymupdf''")
  case True
  with assms obtain doc where d: "pymupdf_open (pdf_path self) = Inr doc" "page_count doc = n"
    by (auto simp: opened_page_count_def split: sum.splits)
  from assms(2) True d
  have "\<forall>i\<in>set (py_range (start_index start_page) (min (end_index end_page (int n)) (int n))).
          \<exists>t. page_text doc i = Inr t"
    by (auto simp: page_raises_def not_Inl_iff_Inr split: sum.splits)
  then obtain ps where
    "pymupdf_loop doc (py_range (start_index start_page) (min (end_index end_page (int n)) (int n))) [] = Inr ps"
    using pymupdf_loop_Inr by blast
  with True d show ?thesis
    by (simp add: extract_pages_def extract_with_pymupdf_def Let_def)
next
  case False
  with assms have b: "backend self = ''pdfplumber''"
    by (auto simp: opened_page_count_def split: if_splits)
  with assms obtain pdf where d: "pdfplumber_open (pdf_path self) = Inr pdf" "page_count pdf = n"
    by (auto simp: opened_page_count_def split: sum.splits)
  from assms(2) b d
  have "\<forall>i\<in>set (py_range (start_index start_page) (min (end_index end_page (int n)) (int n))).
          \<exists>t. page_text pdf i = Inr t"
    by (auto simp: page_raises_def not_Inl_iff_Inr split: sum.splits)
  then obtain ps where
    "pdfplumber_loop pdf (py_range (start_index start_page) (min (end_index end_page (int n)) (int n))) [] = Inr ps"
    using pdfplumber_loop_Inr by blast
  with b d show ?thesis
    by (simp add: extract_pages_def extract_with_pdfplumber_def Let_def)
qed

text \<open>
  Claim C10. For every document and every \<open>start_page\<close> strictly greater than the
  document's page count, \<open>extract_pages\<close> returns the empty sequence and raises nothing,
  with either backend and whatever \<open>end_page\<close> is: the start of the range is not clamped
  or checked against the page count, the range of indices is simply empty.
\<close>

theorem extract_pages_start_beyond_last_page:
  assumes "opened_page_count self = Some n" and "int n < s"
  shows "extract_pages self (Some s) end_page handles = (Inr [], handles)"
proof -
  have "py_range (start_index (Some s)) (min (end_index end_page (int n)) (int n)) = []"
    using assms(2) by (simp add: py_range_def start_index_def)
  then obtain ps where r: "extract_pages self (Some s) end_page handles = (Inr ps, handles)"
    using extract_pages_returns [OF assms(1), of "Some s" end_page handles] by auto
  from extract_pages_page_numbers [OF r assms(1)] assms(2) have "map page_number ps = []"
    by (simp add: start_index_def)
  with r show ?thesis by simp
qed

theorem extract_pages_start_beyond_last_page_witness:
  "opened_page_count \<lparr>pdf_path = sample_file, backend = ''pdfplumber''\<rparr> = Some 3 \<and>
   int 3 < 7 \<and>
   extract_pages \<lparr>pdf_path = sample_file, backend = ''pdfplumber''\<rparr> (Some 7) None 0 = (Inr [], 0)"
  using extract_pages_start_beyond_last_page
    [of "\<lparr>pdf_path = sample_file, backend = ''pdfplumber''\<rparr>" 3 7 None 0]
  by (simp add: opened_page_count_def sample_file_def)

text \<open>
  Claim C3. For a document of \<open>n\<close> pages and a range with a positive start inside the
  document and \<open>start \<le> end\<close> (an unset start counts as 1, an unset end as \<open>n\<close>),
  \<open>extract_pages\<close> returns whenever no page of the range raises, and every sequence it
  returns has length \<open>min end n - max (start - 1) 0\<close> and carries the page numbers
  \<open>start, start + 1, \<dots>, min end n\<close>: contiguous, ascending, with the end clamped to
  the page count.
\<close>

theorem extract_pages_range:
  assumes "opened_page_count self = Some n"
    and "start_page = Some s \<or> start_page = None \<and> s = 1"
    and "end_page = Some e \<or> end_page = None \<and> e = int n"
    and "1 \<le> s" and "s \<le> e" and "s \<le> int n"
  shows "((\<forall>i\<in>set (py_range (s - 1) (min e (int n))). \<not> page_raises self i) \<longrightarrow>
            (\<exists>ps. extract_pages self start_page end_page handles = (Inr ps, handles))) \<and>
         (\<forall>ps handles'. extract_pages self start_page end_page handles = (Inr ps, handles') \<longrightarrow>
            int (length ps) = min e (int n) - max (s - 1) 0 \<and>
            map page_number ps = [s..min e (int n)])"
proof -
  from assms have si: "start_index start_page = s - 1"
    by (auto simp: start_index_def)
  from assms have ei: "end_index end_page (int n) = e"
    by (auto simp: end_index_def)
  show ?thesis
  proof (intro conjI allI impI)
    assume "\<forall>i\<in>set (py_range (s - 1) (min e (int n))). \<not> page_raises self i"
    then show "\<exists>ps. extract_pages self start_page end_page handles = (Inr ps, handles)"
      using extract_pages_returns [OF assms(1), of start_page end_page handles]
      by (simp add: si ei)
  next
    fix ps handles'
    assume r: "extract_pages self start_page end_page handles = (Inr ps, handles')"
    from extract_pages_page_numbers [OF r assms(1)]
    have pn: "map page_number ps = [s..min e (int n)]"
      by (simp add: si ei)
    then show "map page_number ps = [s..min e (int n)]" .
    have "length ps = length (map page_number ps)" by simp
    also have "\<dots> = nat (min e (int n) - s + 1)"
      by (simp only: pn length_upto)
    finally show "int (length ps) = min e (int n) - max (s - 1) 0"
      using assms(4-6) by simp
  qed
qed

theorem extract_pages_range_witness:
  "opened_page_count \<lparr>pdf_path = sample_file, backend = ''pymupdf''\<rparr> = Some 3 \<and>
   (1::int) \<le> 2 \<and> (2::int) \<le> 5 \<and> 2 \<le> int 3 \<and>
   (\<exists>ps. extract_pages \<lparr>pdf_path = sample_file, backend = ''pymupdf''\<rparr> (Some 2) (Some 5) 0
           = (Inr ps, 0) \<and>
         int (length ps) = min 5 (int 3) - max (2 - 1) 0 \<and>
         map page_number ps = [2, 3])"
proof -
  let ?self = "\<lparr>pdf_path = sample_file, backend = ''pymupdf''\<rparr>"
  have c: "opened_page_count ?self = Some 3"
    by (simp add: opened_page_count_def sample_file_def)
  have r: "\<forall>i\<in>set (py_range (2 - 1) (min 5 (int 3))). \<not> page_raises ?self i"
    by (simp add: page_raises_def sample_file_def)
  have u: "[2..3] = [2::int, 3]" by (simp add: upto.simps)
  from extract_pages_range [OF c, of "Some 2" 2 "Some 5" 5 0] r u c show ?thesis
    by auto
qed

subsection \<open>The document handle\<close>

text \<open>
  With pdfplumber the handle count after the call is the count before it, on every path.
  With PyMuPDF this holds on the path that returns pages.
\<close>

lemma extract_with_pdfplumber_releases:
  "snd (extract_with_pdfplumber self start_page end_page handles) = handles"
  by (simp add: extract_with_pdfplumber_def Let_def split: sum.splits)

lemma extract_with_pymupdf_releases_on_success:
  "extract_with_pymupdf self start_page end_page handles = (Inr ps, handles') \<Longrightarrow> handles' = handles"
  by (auto simp: extract_with_pymupdf_def Let_def split: sum.splits)

lemma pdfplumber_handle_released_on_error:
  "extract_pages \<lparr>pdf_path = unreadable_file, backend = ''pdfplumber''\<rparr> None None 0 =
     (Inl (LibraryError ''page unreadable''), 0)"
  by (simp add: extract_pages_def extract_with_pdfplumber_def unreadable_file_def Let_def
      start_index_def end_index_def py_range_def upto.simps)

text \<open>
  Claim C2. The claim is that the handle opened by \<open>extract_pages\<close> is released on every
  exit path with both backends. On the PyMuPDF path the call below opens the one-page
  unreadable document, the read of its page raises, and the call ends with the exception
  and one handle still open: \<^verbatim>\<open>doc.close()\<close> is placed after the loop and is skipped.
\<close>

theorem pymupdf_handle_left_open_on_error:
  "extract_pages \<lparr>pdf_path = unreadable_file, backend = ''pymupdf''\<rparr> None None 0 =
     (Inl (LibraryError ''page unreadable''), 1)"
  by (simp add: extract_pages_def extract_with_pymupdf_def unreadable_file_def Let_def
      start_index_def end_index_def py_range_def upto.simps)

subsection \<open>Pages without text\<close>

lemma loops_agree:
  "\<forall>n\<in>set ns. page_text doc n = map_sum id text_or_empty (page_text pdf n) \<Longrightarrow>
     pymupdf_loop doc ns acc = pdfplumber_loop pdf ns acc"
  by (induction ns arbitrary: acc) (auto split: sum.splits)

text \<open>
  Claim C7. When pdfplumber yields \<^verbatim>\<open>None\<close> for a page of the requested range, the
  record of that page holds the empty string, and the call does not fail for it.
  Moreover the two backends return the same result on the same range whenever, page by
  page, PyMuPDF yields what pdfplumber yields with \<^verbatim>\<open>None\<close> read as the empty string
  (or both raise the same exception): on textless pages they are interchangeable.
\<close>

theorem textless_page_yields_empty_string:
  "(backend self = ''pdfplumber'' \<and> pdfplumber_open (pdf_path self) = Inr pdf \<and>
    extract_pages self start_page end_page handles = (Inr ps, handles') \<and>
    i \<in> set (py_range (start_index start_page)
               (min (end_index end_page (int (page_count pdf))) (int (page_count pdf)))) \<and>
    page_text pdf i = Inr None
    \<longrightarrow> \<lparr>page_number = i + 1, text' = []\<rparr> \<in> set ps) \<and>
   (pymupdf_open (pdf_path self) = Inr doc \<and> pdfplumber_open (pdf_path self) = Inr pdf \<and>
    page_count doc = page_count pdf \<and>
    (\<forall>i\<in>set (py_range (start_index start_page)
               (min (end_index end_page (int (page_count pdf))) (int (page_count pdf)))).
       page_text doc i = map_sum id text_or_empty (page_text pdf i))
    \<longrightarrow> fst (extract_pages (self\<lparr>backend := ''pymupdf''\<rparr>) start_page end_page handles) =
        fst (extract_pages (self\<lparr>backend := ''pdfplumber''\<rparr>) start_page end_page handles))"
proof (intro conjI impI)
  assume a: "backend self = ''pdfplumber'' \<and> pdfplumber_open (pdf_path self) = Inr pdf \<and>
    extract_pages self start_page end_page handles = (Inr ps, handles') \<and>
    i \<in> set (py_range (start_index start_page)
               (min (end_index end_page (int (page_count pdf))) (int (page_count pdf)))) \<and>
    page_text pdf i = Inr None"
  let ?ns = "py_range (start_index start_page)
               (min (end_index end_page (int (page_count pdf))) (int (page_count pdf)))"
  from a have "pdfplumber_loop pdf ?ns [] = Inr ps"
    by (auto simp: extract_pages_def extract_with_pdfplumber_def Let_def split: sum.splits)
  then have "ps = map (\<lambda>n. \<lparr>page_number = n + 1,
                             text' = text_or_empty (projr (page_text pdf n))\<rparr>) ?ns"
    by (simp add: pdfplumber_loop_Inr)
  moreover from a have "i \<in> set ?ns" and "text_or_empty (projr (page_text pdf i)) = []"
    by (simp_all add: text_or_empty_def)
  ultimately show "\<lparr>page_number = i + 1, text' = []\<rparr> \<in> set ps"
    by force
next
  assume a: "pymupdf_open (pdf_path self) = Inr doc \<and> pdfplumber_open (pdf_path self) = Inr pdf \<and>
    page_count doc = page_count pdf \<and>
    (\<forall>i\<in>set (py_range (start_index start_page)
               (min (end_index end_page (int (page_count pdf))) (int (page_count pdf)))).
       page_text doc i = map_sum id text_or_empty (page_text pdf i))"
  then have "pymupdf_loop doc (py_range (start_index start_page)
               (min (end_index end_page (int (page_count pdf))) (int (page_count pdf)))) [] =
             pdfplumber_loop pdf (py_range (start_index start_page)
               (min (end_index end_page (int (page_count pdf))) (int (page_count pdf)))) []"
    using loops_agree by blast
  with a show "fst (extract_pages (self\<lparr>backend := ''pymupdf''\<rparr>) start_page end_page handles) =
        fst (extract_pages (self\<lparr>backend := ''pdfplumber''\<rparr>) start_page end_page handles)"
    by (simp add: extract_pages_def extract_with_pymupdf_def extract_with_pdfplumber_def Let_def
        split: sum.splits)
qed

theorem textless_page_yields_empty_string_witness:
  "extract_pages \<lparr>pdf_path = sample_file, backend = ''pdfplumber''\<rparr> None None 0 =
     (Inr [\<lparr>page_number = 1, text' = ''body''\<rparr>, \<lparr>page_number = 2, text' = []\<rparr>,
           \<lparr>page_number = 3, text' = ''body''\<rparr>], 0) \<and>
   \<lparr>page_number = 1 + 1, text' = []\<rparr> \<in>
     set [\<lparr>page_number = 1, text' = ''body''\<rparr>, \<lparr>page_number = 2, text' = []\<rparr>,
           \<lparr>page_number = 3, text' = ''body''\<rparr>] \<and>
   fst (extract_pages \<lparr>pdf_path = sample_file, backend = ''pymupdf''\<rparr> None None 0) =
   fst (extract_pages \<lparr>pdf_path = sample_file, backend = ''pdfplumber''\<rparr> None None 0)"
proof -
  let ?self = "\<lparr>pdf_path = sample_file, backend = ''pdfplumber''\<rparr>"
  let ?pdf = "\<lparr>page_count = 3, page_text = (\<lambda>i::int. Inr (if i = 1 then None else Some ''body'')) :: int \<Rightarrow> exn + string option\<rparr>"
  let ?doc = "\<lparr>page_count = 3, page_text = (\<lambda>i::int. Inr (if i = 1 then [] else ''body'')) :: int \<Rightarrow> exn + string\<rparr>"
  let ?ps = "[\<lparr>page_number = 1, text' = ''body''\<rparr>, \<lparr>page_number = 2, text' = []\<rparr>,
           \<lparr>page_number = 3, text' = ''body''\<rparr>]"
  have u: "[0..2] = [0::int, 1, 2]" by (simp add: upto.simps)
  have e: "extract_pages ?self None None 0 = (Inr ?ps, 0)"
    by (simp add: extract_pages_def extract_with_pdfplumber_def sample_file_def Let_def
        start_index_def end_index_def py_range_def u text_or_empty_def)
  have o: "pdfplumber_open (pdf_path ?self) = Inr ?pdf" "pymupdf_open (pdf_path ?self) = Inr ?doc"
    by (simp_all add: sample_file_def)
  have i: "1 \<in> set (py_range (start_index None) (min (end_index None (int (page_count ?pdf))) (int (page_count ?pdf))))"
    by (simp add: start_index_def end_index_def py_range_def u)
  have agree: "\<forall>i\<in>set (py_range (start_index None)
               (min (end_index None (int (page_count ?pdf))) (int (page_count ?pdf)))).
       page_text ?doc i = map_sum id text_or_empty (page_text ?pdf i)"
    by (simp add: text_or_empty_def)
  from textless_page_yields_empty_string
    [of ?self ?pdf None None 0 ?ps 0 1 ?doc] e o i agree
  show ?thesis by simp
qed

section \<open>Properties of the section locator\<close>

text \<open>The program's string tests agree with the description of a section-ending line.\<close>

lemma contains_iff: "contains pat s \<longleftrightarrow> (\<exists>a b. s = a @ pat @ b)"
proof (induction s)
  case Nil
  then show ?case by auto
next
  case (Cons c cs)
  have "startswith (c # cs) pat \<longleftrightarrow> (\<exists>b. c # cs = pat @ b)"
    unfolding startswith_def
    by (metis append_eq_conv_conj append_take_drop_id)
  moreover have "(\<exists>a b. c # cs = a @ pat @ b) \<longleftrightarrow>
      (\<exists>b. c # cs = pat @ b) \<or> (\<exists>a b. cs = a @ pat @ b)"
    by (auto simp: Cons_eq_append_conv) 
  ultimately show ?case using Cons.IH by simp
qed

lemma strip_Nil: "dropWhile isspace s = [] \<Longrightarrow> strip s = []"
  by (simp add: strip_def del: dropWhile_eq_Nil_conv)

lemma strip_Cons:
  assumes "dropWhile isspace s = c # cs"
  shows "\<exists>r. strip s = c # r"
proof -
  from assms have nc: "\<not> isspace c"
    by (metis hd_dropWhile list.distinct(1) list.sel(1))
  have "dropWhile isspace (rev cs @ [c]) = dropWhile isspace (rev cs) @ [c]"
    using nc by (simp add: dropWhile_append)
  then show ?thesis
    using assms by (simp add: strip_def)
qed

lemma startswith_digit:
  "startswith_any s digit_prefixes \<longleftrightarrow> (case s of [] \<Rightarrow> False | c # cs \<Rightarrow> is_digit c)"
  by (cases s) (auto simp: startswith_any_def digit_prefixes_def startswith_def is_digit_def)

lemma line_test:
  "startswith_any (strip line) digit_prefixes \<longleftrightarrow>
     (case dropWhile isspace line of [] \<Rightarrow> False | c # cs \<Rightarrow> is_digit c)"
proof (cases "dropWhile isspace line")
  case Nil
  then show ?thesis by (simp add: startswith_digit strip_Nil del: dropWhile_eq_Nil_conv)
next
  case (Cons c cs)
  with strip_Cons [OF Cons] show ?thesis by (auto simp: startswith_digit)
qed

lemma split_ws_first:
  "split_ws line = (case dropWhile isspace line of [] \<Rightarrow> []
      | c # cs \<Rightarrow> first_token line # split_ws (dropWhile (\<lambda>x. \<not> isspace x) cs))"
proof (cases "dropWhile isspace line")
  case Nil
  then show ?thesis by (subst split_ws.simps) (simp del: dropWhile_eq_Nil_conv)
next
  case (Cons c cs)
  then have nc: "\<not> isspace c"
    by (metis hd_dropWhile list.distinct(1) list.sel(1))
  with Cons show ?thesis
    by (subst split_ws.simps) (simp add: first_token_def)
qed

lemma line_loop_eq:
  "line_loop pat s pd lines =
     (if list_ex (next_section_line pat) lines then Some (s, page_number pd - 1) else None)"
proof (induction lines)
  case Nil
  then show ?case by simp
next
  case (Cons line lines)
  show ?case
  proof (cases "dropWhile isspace line")
    case Nil
    then show ?thesis
      using Cons.IH by (simp add: line_test next_section_line_def del: dropWhile_eq_Nil_conv)
  next
    case (Cons c cs)
    then have "split_ws line = first_token line # split_ws (dropWhile (\<lambda>x. \<not> isspace x) cs)"
      by (subst split_ws_first) simp
    with Cons Cons.IH show ?thesis
      by (simp add: line_test next_section_line_def)
  qed
qed

lemma page_loop_searching_skip:
  "\<forall>x\<in>set pre. \<not> contains pat (text' x) \<Longrightarrow>
     page_loop pat pages (pre @ rest) None = page_loop pat pages rest None"
  by (induction pre) auto

lemma page_loop_searching_found:
  "contains pat (text' p) \<Longrightarrow>
     page_loop pat pages (p # rest) None = page_loop pat pages rest (Some (page_number p))"
  by simp

lemma page_loop_inside_skip:
  "\<forall>x\<in>set mid. \<not> has_next_section_line pat (text' x) \<Longrightarrow>
     page_loop pat pages (mid @ rest) (Some s) = page_loop pat pages rest (Some s)"
  by (induction mid) (auto simp: line_loop_eq has_next_section_line_def)

lemma page_loop_inside_found:
  "has_next_section_line pat (text' q) \<Longrightarrow>
     page_loop pat pages (q # rest) (Some s) = Inr (Some (s, page_number q - 1))"
  by (simp add: line_loop_eq has_next_section_line_def)

lemma find_section_unfold:
  "extract_pages self start_page end_page handles = (Inr pages, handles') \<Longrightarrow>
     find_section self pat start_page end_page handles = (page_loop pat pages pages None, handles')"
  by (simp add: find_section_def)

lemma upto_0_5: "[0..5] = [0::int, 1, 2, 3, 4, 5]"
  by (simp add: upto.simps)

lemma report_pages:
  "extract_pages \<lparr>pdf_path = report_file, backend = ''pymupdf''\<rparr> None None 0 =
     (Inr [\<lparr>page_number = 1, text' = ''Introduction''\<rparr>,
           \<lparr>page_number = 2, text' = ''Introduction''\<rparr>,
           \<lparr>page_number = 3, text' = ''Introduction''\<rparr>,
           \<lparr>page_number = 4, text' = ''Introduction''\<rparr>,
           \<lparr>page_number = 5, text' = ''3.2 Methods'' @ [CHR 0x0A] @ ''We measure''\<rparr>,
           \<lparr>page_number = 6, text' = ''continued'' @ [CHR 0x0A] @ '' 3.3 Results''\<rparr>], 0)"
  by (simp add: extract_pages_def extract_with_pymupdf_def report_file_def Let_def
      start_index_def end_index_def py_range_def upto_0_5)

text \<open>
  Claim C1. Let the pages scanned by \<open>find_section\<close> be \<open>pre @ p # mid @ q # rest\<close>,
  where \<open>p\<close> is the first page whose text contains the label as a substring and \<open>q\<close> is
  the first later page with a line that, trimmed, begins with an ASCII digit and whose
  first whitespace-delimited token differs from the label. Then \<open>find_section\<close> returns
  the number of \<open>p\<close> and the number of \<open>q\<close> minus 1. In the report above, page 5 contains
  \<open>3.2\<close> and page 6 has the line \<open>3.3 Results\<close>: the result is \<open>(5, 5)\<close>.
\<close>

theorem find_section_ends_before_next_section:
  assumes "extract_pages self start_page end_page handles = (Inr pages, handles')"
    and "pages = pre @ p # mid @ q # rest"
    and "\<forall>x\<in>set pre. \<not> contains label (text' x)"
    and "contains label (text' p)"
    and "\<forall>x\<in>set mid. \<not> has_next_section_line label (text' x)"
    and "has_next_section_line label (text' q)"
  shows "find_section self label start_page end_page handles =
           (Inr (Some (page_number p, page_number q - 1)), handles')"
proof -
  have "page_loop label pages (pre @ p # mid @ q # rest) None =
        page_loop label pages (p # mid @ q # rest) None"
    using assms(3) by (rule page_loop_searching_skip)
  also have "\<dots> = page_loop label pages (mid @ q # rest) (Some (page_number p))"
    using assms(4) by (rule page_loop_searching_found)
  also have "\<dots> = page_loop label pages (q # rest) (Some (page_number p))"
    using assms(5) by (rule page_loop_inside_skip)
  also have "\<dots> = Inr (Some (page_number p, page_number q - 1))"
    using assms(6) by (rule page_loop_inside_found)
  finally show ?thesis
    using assms(1,2) by (simp add: find_section_unfold)
qed

theorem find_section_ends_before_next_section_witness:
  "find_section \<lparr>pdf_path = report_file, backend = ''pymupdf''\<rparr> ''3.2'' None None 0 =
     (Inr (Some (5, 5)), 0)"
proof -
  let ?intro = "\<lambda>n. \<lparr>page_number = n, text' = ''Introduction''\<rparr>"
  let ?p = "\<lparr>page_number = 5, text' = ''3.2 Methods'' @ [CHR 0x0A] @ ''We measure''\<rparr>"
  let ?q = "\<lparr>page_number = 6, text' = ''continued'' @ [CHR 0x0A] @ '' 3.3 Results''\<rparr>"
  have 1: "[?intro 1, ?intro 2, ?intro 3, ?intro 4, ?p, ?q] =
           [?intro 1, ?intro 2, ?intro 3, ?intro 4] @ ?p # [] @ ?q # []"
    by simp
  have 2: "\<forall>x\<in>set [?intro 1, ?intro 2, ?intro 3, ?intro 4]. \<not> contains ''3.2'' (text' x)"
    by (simp add: startswith_def)
  have 3: "contains ''3.2'' (text' ?p)"
    by (simp add: startswith_def)
  have 4: "\<forall>x\<in>set []. \<not> has_next_section_line ''3.2'' (text' x)"
    by simp
  have 5: "has_next_section_line ''3.2'' (text' ?q)"
    by (simp add: has_next_section_line_def next_section_line_def first_token_def isspace_def
        is_digit_def)
  from find_section_ends_before_next_section [OF report_pages 1 2 3 4 5]
  show ?thesis by simp
qed

text \<open>
  Claim C5. When the label occurs as a substring only on the last page of the scanned
  range, \<open>find_section\<close> returns that page's number as both start and end.
\<close>

theorem find_section_label_on_last_page:
  assumes "extract_pages self start_page end_page handles = (Inr pages, handles')"
    and "pages = pre @ [p]"
    and "\<forall>x\<in>set pre. \<not> contains label (text' x)"
    and "contains label (text' p)"
  shows "find_section self label start_page end_page handles =
           (Inr (Some (page_number p, page_number p)), handles')"
proof -
  have "page_loop label pages (pre @ [p]) None = page_loop label pages [p] None"
    using assms(3) by (rule page_loop_searching_skip)
  also have "\<dots> = page_loop label pages [] (Some (page_number p))"
    using assms(4) by (rule page_loop_searching_found)
  also have "\<dots> = Inr (Some (page_number p, page_number p))"
    using assms(2) by simp
  finally show ?thesis
    using assms(1,2) by (simp add: find_section_unfold)
qed

theorem find_section_label_on_last_page_witness:
  "find_section \<lparr>pdf_path = report_file, backend = ''pymupdf''\<rparr> ''3.3'' None None 0 =
     (Inr (Some (6, 6)), 0)"
proof -
  let ?intro = "\<lambda>n. \<lparr>page_number = n, text' = ''Introduction''\<rparr>"
  let ?p = "\<lparr>page_number = 5, text' = ''3.2 Methods'' @ [CHR 0x0A] @ ''We measure''\<rparr>"
  let ?q = "\<lparr>page_number = 6, text' = ''continued'' @ [CHR 0x0A] @ '' 3.3 Results''\<rparr>"
  have 1: "[?intro 1, ?intro 2, ?intro 3, ?intro 4, ?p, ?q] =
           [?intro 1, ?intro 2, ?intro 3, ?intro 4, ?p] @ [?q]"
    by simp
  have 2: "\<forall>x\<in>set [?intro 1, ?intro 2, ?intro 3, ?intro 4, ?p]. \<not> contains ''3.3'' (text' x)"
    by (simp add: startswith_def)
  have 3: "contains ''3.3'' (text' ?q)"
    by (simp add: startswith_def)
  from find_section_label_on_last_page [OF report_pages 1 2 3]
  show ?thesis by simp
qed

text \<open>
  Claim C6. When the scanned range is empty, or no page of it contains the label as a
  substring, \<open>find_section\<close> returns \<open>None\<close> and raises nothing.
\<close>

theorem find_section_absent:
  assumes "extract_pages self start_page end_page handles = (Inr pages, handles')"
    and "pages = [] \<or> (\<forall>x\<in>set pages. \<not> contains label (text' x))"
  shows "find_section self label start_page end_page handles = (Inr None, handles')"
proof -
  from assms(2) have "\<forall>x\<in>set pages. \<not> contains label (text' x)"
    by auto
  then have "page_loop label pages (pages @ []) None = page_loop label pages [] None"
    by (rule page_loop_searching_skip)
  then show ?thesis
    using assms(1) by (simp add: find_section_unfold)
qed


theorem find_section_absent_witness:
  "find_section \<lparr>pdf_path = report_file, backend = ''pymupdf''\<rparr> ''9.9'' None None 0 =
     (Inr None, 0) \<and>
   find_section \<lparr>pdf_path = report_file, backend = ''pymupdf''\<rparr> ''3.2'' (Some 7) None 0 =
     (Inr None, 0)"
proof -
  let ?self = "\<lparr>pdf_path = report_file, backend = ''pymupdf''\<rparr>"
  let ?intro = "\<lambda>n. \<lparr>page_number = n, text' = ''Introduction''\<rparr>"
  let ?p = "\<lparr>page_number = 5, text' = ''3.2 Methods'' @ [CHR 0x0A] @ ''We measure''\<rparr>"
  let ?q = "\<lparr>page_number = 6, text' = ''continued'' @ [CHR 0x0A] @ '' 3.3 Results''\<rparr>"
  have 1: "[?intro 1, ?intro 2, ?intro 3, ?intro 4, ?p, ?q] = [] \<or>
           (\<forall>x\<in>set [?intro 1, ?intro 2, ?intro 3, ?intro 4, ?p, ?q]. \<not> contains ''9.9'' (text' x))"
    by (simp add: startswith_def)
  have 2: "extract_pages ?self (Some 7) None 0 = (Inr [], 0)"
    by (simp add: extract_pages_def extract_with_pymupdf_def report_file_def Let_def
        start_index_def end_index_def py_range_def)
  have 3: "[] = [] \<or> (\<forall>x\<in>set ([] :: page_record list). \<not> contains ''3.2'' (text' x))"
    by simp
  from find_section_absent [OF report_pages 1] find_section_absent [OF 2 3]
  show ?thesis by simp
qed

lemma extract_pages_contiguous:
  assumes "extract_pages self start_page end_page handles = (Inr pages, handles')"
  shows "\<exists>a b. map page_number pages = [a..b]"
proof -
  from assms obtain n where "opened_page_count self = Some n"
    by (auto simp: extract_pages_def extract_with_pymupdf_def extract_with_pdfplumber_def
        opened_page_count_def split: if_splits sum.splits)
  from extract_pages_page_numbers [OF assms this] show ?thesis by blast
qed

lemma contiguous_nth:
  assumes "map page_number pages = [a..b]" and "k < length pages"
  shows "page_number (pages ! k) = a + int k"
proof -
  have "length pages = nat (b - a + 1)"
    using assms(1) by (metis length_map length_upto)
  with assms(2) have "a + int k \<le> b" by linarith
  then have "[a..b] ! k = a + int k" by (rule nth_upto)
  with assms show ?thesis by (metis nth_map)
qed

lemma page_loop_inside_cases:
  "(page_loop label pages rest (Some s) =
      (if pages = [] then Inl IndexError else Inr (Some (s, page_number (last pages)))) \<and>
    (\<forall>x\<in>set rest. \<not> has_next_section_line label (text' x))) \<or>
   (\<exists>mid q rest'. rest = mid @ q # rest' \<and>
      page_loop label pages rest (Some s) = Inr (Some (s, page_number q - 1)))"
proof (cases "\<exists>x\<in>set rest. has_next_section_line label (text' x)")
  case True
  then have "\<exists>mid q rest'. rest = mid @ q # rest' \<and>
      has_next_section_line label (text' q) \<and>
      (\<forall>x\<in>set mid. \<not> has_next_section_line label (text' x))"
    by (rule split_list_first_prop)
  then obtain mid q rest' where r: "rest = mid @ q # rest'"
      "has_next_section_line label (text' q)"
      "\<forall>x\<in>set mid. \<not> has_next_section_line label (text' x)"
    by blast
  have "page_loop label pages (mid @ q # rest') (Some s) =
        page_loop label pages (q # rest') (Some s)"
    using r(3) by (rule page_loop_inside_skip)
  also have "\<dots> = Inr (Some (s, page_number q - 1))"
    using r(2) by (rule page_loop_inside_found)
  finally show ?thesis using r(1) by blast
next
  case False
  then have "\<forall>x\<in>set rest. \<not> has_next_section_line label (text' x)"
    by simp
  from this page_loop_inside_skip [OF this, of pages "[]" s] show ?thesis
    by simp
qed

lemma page_loop_searching_cases:
  "page_loop label pages rest None = Inr None \<or>
   (\<exists>pre p post. rest = pre @ p # post \<and>
      page_loop label pages rest None = page_loop label pages post (Some (page_number p)))"
proof (cases "\<exists>x\<in>set rest. contains label (text' x)")
  case True
  then have "\<exists>pre p post. rest = pre @ p # post \<and> contains label (text' p) \<and>
      (\<forall>x\<in>set pre. \<not> contains label (text' x))"
    by (rule split_list_first_prop)
  then obtain pre p post where r: "rest = pre @ p # post" "contains label (text' p)"
      "\<forall>x\<in>set pre. \<not> contains label (text' x)"
    by blast
  have "page_loop label pages (pre @ p # post) None = page_loop label pages (p # post) None"
    using r(3) by (rule page_loop_searching_skip)
  also have "\<dots> = page_loop label pages post (Some (page_number p))"
    using r(2) by (rule page_loop_searching_found)
  finally show ?thesis using r(1) by blast
next
  case False
  then have "\<forall>x\<in>set rest. \<not> contains label (text' x)"
    by simp
  from page_loop_searching_skip [OF this, of pages "[]"] show ?thesis
    by simp
qed

lemma report_section_3_2:
  "find_section \<lparr>pdf_path = report_file, backend = ''pymupdf''\<rparr> ''3.2'' None None 0 =
     (Inr (Some (5, 5)), 0)"
proof -
  let ?intro = "\<lambda>n. \<lparr>page_number = n, text' = ''Introduction''\<rparr>"
  let ?p = "\<lparr>page_number = 5, text' = ''3.2 Methods'' @ [CHR 0x0A] @ ''We measure''\<rparr>"
  let ?q = "\<lparr>page_number = 6, text' = ''continued'' @ [CHR 0x0A] @ '' 3.3 Results''\<rparr>"
  let ?pages = "[?intro 1, ?intro 2, ?intro 3, ?intro 4, ?p, ?q]"
  have 2: "\<forall>x\<in>set [?intro 1, ?intro 2, ?intro 3, ?intro 4]. \<not> contains ''3.2'' (text' x)"
    by (simp add: startswith_def)
  have 3: "contains ''3.2'' (text' ?p)"
    by (simp add: startswith_def)
  have 5: "has_next_section_line ''3.2'' (text' ?q)"
    by (simp add: has_next_section_line_def next_section_line_def first_token_def isspace_def
        is_digit_def)
  have "page_loop ''3.2'' ?pages ([?intro 1, ?intro 2, ?intro 3, ?intro 4] @ [?p, ?q]) None =
        page_loop ''3.2'' ?pages [?p, ?q] None"
    using 2 by (rule page_loop_searching_skip)
  also have "\<dots> = page_loop ''3.2'' ?pages [?q] (Some (page_number ?p))"
    using 3 by (rule page_loop_searching_found)
  also have "\<dots> = Inr (Some (page_number ?p, page_number ?q - 1))"
    using 5 by (rule page_loop_inside_found)
  finally have "page_loop ''3.2'' ?pages ?pages None = Inr (Some (5, 5))"
    by simp
  then show ?thesis
    by (simp only: find_section_unfold [OF report_pages])
qed

text \<open>
  Claim C9. Whenever \<open>find_section\<close> returns a match \<open>(s, e)\<close>, then \<open>s \<le> e\<close> and both
  are page numbers of pages of the scanned range, that is, of the sequence that
  \<open>extract_pages\<close> returned for the search range.
\<close>

theorem find_section_match_within_range:
  assumes "find_section self label start_page end_page handles = (Inr (Some (s, e)), handles')"
  shows "s \<le> e \<and>
         (\<exists>pages. extract_pages self start_page end_page handles = (Inr pages, handles') \<and>
            s \<in> page_number ` set pages \<and> e \<in> page_number ` set pages)"
proof -
  from assms obtain pages where
    ex: "extract_pages self start_page end_page handles = (Inr pages, handles')"
    and pl: "page_loop label pages pages None = Inr (Some (s, e))"
    by (auto simp: find_section_def split: prod.splits sum.splits)
  from extract_pages_contiguous [OF ex] obtain a b where ab: "map page_number pages = [a..b]"
    by blast
  note nth = contiguous_nth [OF ab]
  from page_loop_searching_cases [of label pages pages] pl
  obtain pre p post where pp: "pages = pre @ p # post"
    and l1: "page_loop label pages post (Some (page_number p)) = Inr (Some (s, e))"
    by auto
  have np: "page_number p = a + int (length pre)"
    using nth [of "length pre"] pp by simp
  from page_loop_inside_cases [of label pages post "page_number p"] l1
  consider (at_end) "s = page_number p" "e = page_number (last pages)"
    | (at_next) mid q rest' where "post = mid @ q # rest'" "s = page_number p"
        "e = page_number q - 1"
    using pp by (auto split: if_splits)
  then have "s \<le> e \<and> s \<in> page_number ` set pages \<and> e \<in> page_number ` set pages"
  proof cases
    case at_end
    have ne: "pages \<noteq> []" using pp by simp
    then have "page_number (last pages) = a + int (length pages - 1)"
      using nth [of "length pages - 1"] by (simp add: last_conv_nth)
    moreover have "length pre \<le> length pages - 1" using pp by simp
    ultimately have "s \<le> e" using at_end np by simp
    moreover have "e \<in> page_number ` set pages"
      unfolding at_end(2) using ne by (intro imageI last_in_set)
    moreover have "s \<in> page_number ` set pages"
      unfolding at_end(1) using pp by simp
    ultimately show ?thesis by simp
  next
    case at_next
    let ?k = "length pre + length mid"
    have k: "?k < length pages" using pp at_next(1) by simp
    have "page_number q = a + int (length pre + 1 + length mid)"
      using nth [of "length pre + 1 + length mid"] pp at_next(1)
      by (simp add: nth_append)
    then have e: "e = page_number (pages ! ?k)"
      using nth [OF k] at_next(3) by simp
    then have "e \<in> page_number ` set pages"
      using k by (metis imageI nth_mem)
    moreover have "s \<le> e" using e nth [OF k] np at_next(2) by simp
    moreover have "s \<in> page_number ` set pages" using at_next(2) pp by simp
    ultimately show ?thesis by simp
  qed
  with ex show ?thesis by blast
qed

theorem find_section_match_within_range_witness:
  "(5::int) \<le> 5 \<and>
   (\<exists>pages. extract_pages \<lparr>pdf_path = report_file, backend = ''pymupdf''\<rparr> None None 0 =
              (Inr pages, 0) \<and>
            5 \<in> page_number ` set pages \<and> 5 \<in> page_number ` set pages)"
  using find_section_match_within_range [OF report_section_3_2] .

section \<open>Properties of the integer conversion\<close>

text \<open>
  The digits written for a number form its decimal numeral, and there are at most \<open>k\<close>
  of them exactly when the number is below \<open>10 ^ k\<close>.
\<close>

lemma digit_char_props:
  assumes "d < 10"
  shows "is_digit (digit_char d)" and "digit_value (digit_char d) = d"
    and "digit_char d = CHR ''0'' \<longleftrightarrow> d = 0"
proof -
  from assms have "d = 0 \<or> d = 1 \<or> d = 2 \<or> d = 3 \<or> d = 4 \<or> d = 5 \<or> d = 6 \<or> d = 7 \<or> d = 8 \<or>
    d = 9"
    by arith
  then show "is_digit (digit_char d)" and "digit_value (digit_char d) = d"
    and "digit_char d = CHR ''0'' \<longleftrightarrow> d = 0"
    by (elim disjE; simp add: digit_char_def is_digit_def digit_value_def)+
qed

lemma str_nat_not_Nil: "str_nat n \<noteq> []"
  by (subst str_nat.simps) simp

lemma str_nat_digits: "\<forall>c\<in>set (str_nat n). is_digit c"
proof (induction n rule: str_nat.induct)
  case (1 n)
  show ?case
  proof (cases "n < 10")
    case True
    then show ?thesis
      by (subst str_nat.simps) (simp add: digit_char_props)
  next
    case False
    with 1 show ?thesis
      by (subst str_nat.simps) (simp add: digit_char_props)
  qed
qed

lemma nat_of_digits_snoc:
  "nat_of_digits (ds @ [c]) = 10 * nat_of_digits ds + digit_value c"
  by (simp add: nat_of_digits_def)

lemma nat_of_digits_str_nat: "nat_of_digits (str_nat n) = n"
proof (induction n rule: str_nat.induct)
  case (1 n)
  show ?case
  proof (cases "n < 10")
    case True
    then show ?thesis
      by (subst str_nat.simps) (simp add: nat_of_digits_def digit_char_props)
  next
    case False
    with 1 show ?thesis
      by (subst str_nat.simps) (simp add: nat_of_digits_snoc digit_char_props)
  qed
qed

lemma str_nat_leading_zero: "hd (str_nat n) = CHR ''0'' \<Longrightarrow> n = 0"
proof (induction n rule: str_nat.induct)
  case (1 n)
  show ?case
  proof (cases "n < 10")
    case True
    with 1(2) show ?thesis
      by (subst (asm) str_nat.simps) (simp add: digit_char_props)
  next
    case False
    with 1(2) have "hd (str_nat (n div 10)) = CHR ''0''"
      by (subst (asm) str_nat.simps) (simp add: str_nat_not_Nil)
    with 1(1) False have "n div 10 = 0" by simp
    with False show ?thesis by simp
  qed
qed

lemma str_nat_0: "str_nat 0 = ''0''"
  by (subst str_nat.simps) (simp add: digit_char_def)


lemma str_nat_value: "horner_sum (\<lambda>c. of_char c - 48) 10 (rev (str_nat n)) = n"
proof (induction n rule: str_nat.induct)
  case (1 n)
  show ?case
  proof (cases "n < 10")
    case True
    then show ?thesis
      using digit_char_props(2) [of n]
      by (subst str_nat.simps) (simp add: digit_value_def)
  next
    case False
    with 1 show ?thesis
      using digit_char_props(2) [of "n mod 10"]
      by (subst str_nat.simps) (simp add: digit_value_def)
  qed
qed

lemma decimal_numeral_str_nat: "decimal_numeral (str_nat n) n"
proof -
  have "hd (str_nat n) = CHR ''0'' \<longrightarrow> str_nat n = ''0''"
    using str_nat_leading_zero [of n] str_nat_0 by auto
  moreover have "list_all (\<lambda>c. c \<in> set ''0123456789'') (str_nat n)"
    using str_nat_digits [of n] by (simp add: list_all_iff is_digit_def)
  ultimately show ?thesis
    by (simp add: decimal_numeral_def str_nat_not_Nil str_nat_value)
qed

lemma int_numeral_int_repr: "int_numeral (int_repr i) i"
  by (simp add: int_numeral_def int_repr_def decimal_numeral_str_nat)

lemma str_nat_length_le: "n < 10 ^ k \<Longrightarrow> 0 < k \<Longrightarrow> length (str_nat n) \<le> k"
proof (induction k arbitrary: n)
  case 0
  then show ?case by simp
next
  case (Suc k)
  show ?case
  proof (cases "n < 10")
    case True
    then show ?thesis by (subst str_nat.simps) simp
  next
    case False
    with Suc.prems have k: "0 < k" by (cases k) auto
    from Suc.prems have "n div 10 < 10 ^ k"
      by (simp add: less_mult_imp_div_less mult.commute)
    from Suc.IH [OF this k] False show ?thesis
      by (subst str_nat.simps) simp
  qed
qed

lemma str_nat_length_gt: "10 ^ k \<le> n \<Longrightarrow> k < length (str_nat n)"
proof (induction k arbitrary: n)
  case 0
  then show ?case using str_nat_not_Nil [of n] by (cases "str_nat n") auto
next
  case (Suc k)
  then have ge: "\<not> n < 10"
    by (metis One_nat_def le_trans not_less one_le_numeral one_le_power power_Suc
        mult.right_neutral mult_le_mono2 nat_mult_1_right power_one_right linorder_not_less
        self_le_power zero_less_Suc)
  from Suc.prems have "10 ^ k \<le> n div 10"
    by (simp add: less_eq_div_iff_mult_less_eq mult.commute)
  from Suc.IH [OF this] ge show ?case
    by (subst str_nat.simps) simp
qed

lemma max_str_digits_pos: "0 < max_str_digits"
  by (simp add: max_str_digits_def)

lemma str_int_within_limit:
  assumes "\<bar>i\<bar> < 10 ^ max_str_digits"
  shows "str_int i = Inr (int_repr i)"
proof -
  have "int (nat \<bar>i\<bar>) < int (10 ^ max_str_digits)"
    using assms by (simp only: of_nat_power of_nat_numeral, simp?)
  then have "nat \<bar>i\<bar> < 10 ^ max_str_digits"
    by (simp only: of_nat_less_iff)
  then have "length (str_nat (nat \<bar>i\<bar>)) \<le> max_str_digits"
    using max_str_digits_pos by (rule str_nat_length_le)
  then show ?thesis
    by (simp add: str_int_def)
qed

lemma str_int_beyond_limit:
  assumes "10 ^ max_str_digits \<le> \<bar>i\<bar>"
  shows "str_int i =
           Inl (ValueError ''Exceeds the limit (4300 digits) for integer string conversion'')"
proof -
  have "int (10 ^ max_str_digits) \<le> int (nat \<bar>i\<bar>)"
    using assms by (simp only: of_nat_power of_nat_numeral, simp?)
  then have "10 ^ max_str_digits \<le> nat \<bar>i\<bar>"
    by (simp only: of_nat_le_iff)
  then have "max_str_digits < length (str_nat (nat \<bar>i\<bar>))"
    by (rule str_nat_length_gt)
  then show ?thesis
    by (simp add: str_int_def)
qed

lemma small_within_limit: "\<bar>i\<bar> < 10 ^ 2 \<Longrightarrow> \<bar>i\<bar> < (10::int) ^ max_str_digits"
proof -
  assume a: "\<bar>i\<bar> < 10 ^ 2"
  have "(10::int) ^ 2 \<le> 10 ^ max_str_digits"
    by (rule power_increasing) (simp_all add: max_str_digits_def)
  with a show ?thesis by (rule less_le_trans)
qed

lemma digits_within_limit:
  assumes "\<bar>i\<bar> < 10 ^ max_str_digits"
  shows "length (str_nat (nat \<bar>i\<bar>)) \<le> max_str_digits"
proof -
  have "int (nat \<bar>i\<bar>) < int (10 ^ max_str_digits)"
    using assms by (simp only: of_nat_power of_nat_numeral, simp?)
  then have "nat \<bar>i\<bar> < 10 ^ max_str_digits"
    by (simp only: of_nat_less_iff)
  then show ?thesis
    using max_str_digits_pos by (rule str_nat_length_le)
qed

section \<open>Properties of the text formatter\<close>

lemma join_Cons: "join sep (x # xs) = x @ concat (map (\<lambda>y. sep @ y) xs)"
  by (induction xs arbitrary: x) simp_all

lemma join_append:
  "xs \<noteq> [] \<Longrightarrow> ys \<noteq> [] \<Longrightarrow> join sep (xs @ ys) = join sep xs @ sep @ join sep ys"
proof (induction xs)
  case Nil
  then show ?case by simp
next
  case (Cons x xs)
  then show ?case
    by (cases xs; cases ys) simp_all
qed

lemma text_loop_plain:
  "text_loop False pages lines = Inr (lines @ map text' pages)"
  by (induction pages arbitrary: lines) simp_all

lemma text_loop_banners:
  "\<forall>p\<in>set pages. \<bar>page_number p\<bar> < 10 ^ max_str_digits \<Longrightarrow>
   text_loop True pages lines =
     Inr (lines @ concat (map (\<lambda>p. [CHR 0x0A # separator,
                                     ''Page '' @ int_repr (page_number p),
                                     separator @ [CHR 0x0A],
                                     text' p]) pages))"
  by (induction pages arbitrary: lines) (simp_all add: str_int_within_limit)

lemma join_banner_items:
  "join [CHR 0x0A]
     (concat (map (\<lambda>p. [CHR 0x0A # separator, ''Page '' @ n p, separator @ [CHR 0x0A], t p]) pages)) =
   (case pages of
      [] \<Rightarrow> []
    | p # ps \<Rightarrow>
        (CHR 0x0A # separator @ CHR 0x0A # ''Page '' @ n p @ CHR 0x0A # separator @
           [CHR 0x0A, CHR 0x0A] @ t p) @
        concat (map (\<lambda>q. CHR 0x0A # CHR 0x0A # separator @ CHR 0x0A # ''Page '' @ n q @
                           CHR 0x0A # separator @ [CHR 0x0A, CHR 0x0A] @ t q) ps))"
proof (induction pages)
  case Nil
  then show ?case by simp
next
  case (Cons p ps)
  let ?items = "\<lambda>p. [CHR 0x0A # separator, ''Page '' @ n p, separator @ [CHR 0x0A], t p]"
  show ?case
  proof (cases ps)
    case Nil
    then show ?thesis by simp
  next
    case (Cons q qs)
    have "join [CHR 0x0A] (?items p @ concat (map ?items ps)) =
          join [CHR 0x0A] (?items p) @ [CHR 0x0A] @ join [CHR 0x0A] (concat (map ?items ps))"
      by (rule join_append) (simp_all add: Cons)
    with Cons.IH Cons show ?thesis by simp
  qed
qed

text \<open>The banner of one page, and the decimal page number in its label.\<close>

lemma extract_to_text_example:
  "extract_to_text [\<lparr>page_number = 12, text' = ''ab''\<rparr>] True =
     Inr ([CHR 0x0A] @ replicate 60 (CHR ''='') @ [CHR 0x0A] @ ''Page 12'' @ [CHR 0x0A] @
          replicate 60 (CHR ''='') @ [CHR 0x0A, CHR 0x0A] @ ''ab'')"
  by (simp add: extract_to_text_def separator_def str_int_def int_repr_def str_nat.simps
      digit_char_def max_str_digits_def)

text \<open>
  Claim C8. With banners suppressed the text formatter returns, for every sequence of page
  records, the pages' texts unchanged and in order, separated by single newlines, and
  nothing else. With banners enabled, and every page number of absolute value below
  \<open>10 ^ max_str_digits\<close>, the text of each page is preceded by a newline, 60 \<open>=\<close>
  characters, a newline, the label \<open>Page N\<close> with \<open>N\<close> the decimal numeral of the page
  number, a newline, 60 \<open>=\<close> characters and two newlines; the pages are separated by
  single newlines.
\<close>

theorem extract_to_text_layout:
  "extract_to_text pages False =
     Inr (case pages of [] \<Rightarrow> [] | p # ps \<Rightarrow> text' p @ concat (map (\<lambda>q. CHR 0x0A # text' q) ps)) \<and>
   ((\<forall>p\<in>set pages. \<bar>page_number p\<bar> < 10 ^ max_str_digits) \<longrightarrow>
    (\<exists>number.
       (\<forall>p\<in>set pages. int_numeral (number p) (page_number p)) \<and>
       extract_to_text pages True =
         Inr (case pages of
                [] \<Rightarrow> []
              | p # ps \<Rightarrow>
                  (CHR 0x0A # replicate 60 (CHR ''='') @ CHR 0x0A # ''Page '' @ number p @
                     CHR 0x0A # replicate 60 (CHR ''='') @ [CHR 0x0A, CHR 0x0A] @ text' p) @
                  concat (map (\<lambda>q. CHR 0x0A # CHR 0x0A # replicate 60 (CHR ''='') @
                                     CHR 0x0A # ''Page '' @ number q @
                                     CHR 0x0A # replicate 60 (CHR ''='') @
                                     [CHR 0x0A, CHR 0x0A] @ text' q) ps))))"
proof (intro conjI impI)
  show "extract_to_text pages False =
     Inr (case pages of [] \<Rightarrow> [] | p # ps \<Rightarrow> text' p @ concat (map (\<lambda>q. CHR 0x0A # text' q) ps))"
    by (cases pages) (simp_all add: extract_to_text_def text_loop_plain join_Cons comp_def)
next
  assume lim: "\<forall>p\<in>set pages. \<bar>page_number p\<bar> < 10 ^ max_str_digits"
  let ?number = "\<lambda>p. int_repr (page_number p)"
  have "\<forall>p\<in>set pages. int_numeral (?number p) (page_number p)"
    by (simp add: int_numeral_int_repr)
  moreover have "extract_to_text pages True =
         Inr (case pages of
                [] \<Rightarrow> []
              | p # ps \<Rightarrow>
                  (CHR 0x0A # replicate 60 (CHR ''='') @ CHR 0x0A # ''Page '' @ ?number p @
                     CHR 0x0A # replicate 60 (CHR ''='') @ [CHR 0x0A, CHR 0x0A] @ text' p) @
                  concat (map (\<lambda>q. CHR 0x0A # CHR 0x0A # replicate 60 (CHR ''='') @
                                     CHR 0x0A # ''Page '' @ ?number q @
                                     CHR 0x0A # replicate 60 (CHR ''='') @
                                     [CHR 0x0A, CHR 0x0A] @ text' q) ps))"
    using join_banner_items [of ?number text' pages, unfolded separator_def]
    by (simp add: extract_to_text_def text_loop_banners [OF lim] separator_def)
  ultimately show "\<exists>number.
       (\<forall>p\<in>set pages. int_numeral (number p) (page_number p)) \<and>
       extract_to_text pages True =
         Inr (case pages of
                [] \<Rightarrow> []
              | p # ps \<Rightarrow>
                  (CHR 0x0A # replicate 60 (CHR ''='') @ CHR 0x0A # ''Page '' @ number p @
                     CHR 0x0A # replicate 60 (CHR ''='') @ [CHR 0x0A, CHR 0x0A] @ text' p) @
                  concat (map (\<lambda>q. CHR 0x0A # CHR 0x0A # replicate 60 (CHR ''='') @
                                     CHR 0x0A # ''Page '' @ number q @
                                     CHR 0x0A # replicate 60 (CHR ''='') @
                                     [CHR 0x0A, CHR 0x0A] @ text' q) ps))"
    by (intro exI [of _ ?number] conjI)
qed

theorem extract_to_text_layout_witness:
  "extract_to_text [\<lparr>page_number = 12, text' = ''ab''\<rparr>, \<lparr>page_number = 13, text' = ''cd''\<rparr>] False =
     Inr (''ab'' @ [CHR 0x0A] @ ''cd'') \<and>
   (\<exists>number.
      int_numeral (number \<lparr>page_number = 12, text' = ''ab''\<rparr>) 12 \<and>
      int_numeral (number \<lparr>page_number = 13, text' = ''cd''\<rparr>) 13 \<and>
      extract_to_text [\<lparr>page_number = 12, text' = ''ab''\<rparr>, \<lparr>page_number = 13, text' = ''cd''\<rparr>] True =
        Inr ((CHR 0x0A # replicate 60 (CHR ''='') @ CHR 0x0A # ''Page '' @
                number \<lparr>page_number = 12, text' = ''ab''\<rparr> @
                CHR 0x0A # replicate 60 (CHR ''='') @ [CHR 0x0A, CHR 0x0A] @ ''ab'') @
             (CHR 0x0A # CHR 0x0A # replicate 60 (CHR ''='') @ CHR 0x0A # ''Page '' @
                number \<lparr>page_number = 13, text' = ''cd''\<rparr> @
                CHR 0x0A # replicate 60 (CHR ''='') @ [CHR 0x0A, CHR 0x0A] @ ''cd'')))"
proof -
  let ?pages = "[\<lparr>page_number = 12, text' = ''ab''\<rparr>, \<lparr>page_number = 13, text' = ''cd''\<rparr>]"
  have "\<bar>12::int\<bar> < 10 ^ max_str_digits" "\<bar>13::int\<bar> < 10 ^ max_str_digits"
    by (rule small_within_limit, simp)+
  then have lim: "\<forall>p\<in>set ?pages. \<bar>page_number p\<bar> < 10 ^ max_str_digits"
    by simp
  from extract_to_text_layout [of ?pages] lim show ?thesis
    by (simp del: replicate_Suc replicate.simps)
qed

text \<open>
  Without the bound the banner part fails: for a record whose page number is
  \<open>10 ^ max_str_digits\<close> the conversion in the f-string raises and there is no output.
\<close>

theorem extract_to_text_huge_page_number:
  "extract_to_text [\<lparr>page_number = 10 ^ max_str_digits, text' = ''body''\<rparr>] True =
     Inl (ValueError ''Exceeds the limit (4300 digits) for integer string conversion'')"
proof -
  have "str_int (10 ^ max_str_digits) =
          Inl (ValueError ''Exceeds the limit (4300 digits) for integer string conversion'')"
    by (rule str_int_beyond_limit) simp
  then show ?thesis
    by (simp add: extract_to_text_def)
qed

section \<open>Properties of the JSON formatter\<close>

text \<open>Strings: the decoder undoes the encoder's escapes.\<close>

lemma hex_value_hex_char: "d < 16 \<Longrightarrow> hex_value (hex_char d) = Some d"
proof -
  assume "d < 16"
  then have "d = 0 \<or> d = 1 \<or> d = 2 \<or> d = 3 \<or> d = 4 \<or> d = 5 \<or> d = 6 \<or> d = 7 \<or> d = 8 \<or>
    d = 9 \<or> d = 10 \<or> d = 11 \<or> d = 12 \<or> d = 13 \<or> d = 14 \<or> d = 15"
    by arith
  then show ?thesis
    by (elim disjE) (simp_all add: hex_value_def hex_char_def)
qed

lemma unescape_simps:
  "unescape (CHR 0x22) = Some (CHR 0x22)" "unescape (CHR 0x5C) = Some (CHR 0x5C)"
  "unescape (CHR ''n'') = Some (CHR 0x0A)" "unescape (CHR ''r'') = Some (CHR 0x0D)"
  "unescape (CHR ''t'') = Some (CHR 0x09)" "unescape (CHR ''b'') = Some (CHR 0x08)"
  "unescape (CHR ''f'') = Some (CHR 0x0C)"
  by (simp_all add: unescape_def)

lemma scanstring_escape_char:
  "scanstring (escape_char c @ rest) acc = scanstring rest (acc @ [c])"
proof -
  consider (special) "c \<in> {CHR 0x22, CHR 0x5C, CHR 0x0A, CHR 0x0D, CHR 0x09, CHR 0x08, CHR 0x0C}"
    | (control) "c \<notin> {CHR 0x22, CHR 0x5C, CHR 0x0A, CHR 0x0D, CHR 0x09, CHR 0x08, CHR 0x0C}"
        "(of_char c :: nat) < 32"
    | (plain) "c \<notin> {CHR 0x22, CHR 0x5C, CHR 0x0A, CHR 0x0D, CHR 0x09, CHR 0x08, CHR 0x0C}"
        "\<not> (of_char c :: nat) < 32"
    by blast
  then show ?thesis
  proof cases
    case special
    then show ?thesis
      by (auto simp: escape_char_def unescape_simps)
  next
    case control
    let ?n = "of_char c :: nat"
    have d: "?n div 16 < 16" "?n mod 16 < 16" using control(2) by simp_all
    have v: "((0 * 16 + 0) * 16 + ?n div 16) * 16 + ?n mod 16 = ?n" by simp
    have z: "hex_value (CHR ''0'') = Some 0" by (simp add: hex_value_def)
    have lt: "?n < 256" using control(2) by simp
    from control show ?thesis
      by (simp add: escape_char_def hex_value_hex_char [OF d(1)] hex_value_hex_char [OF d(2)] z lt)
  next
    case plain
    then show ?thesis
      by (simp add: escape_char_def)
  qed
qed

lemma scanstring_escaped:
  "scanstring (concat (map escape_char s) @ CHR 0x22 # rest) acc = Inr (acc @ s, rest)"
  by (induction s arbitrary: acc) (simp_all add: scanstring_escape_char)

lemma scan_once_string:
  "scan_once (Suc fuel) (encode_basestring s @ rest) = Inr (JStr s, rest)"
  by (simp add: encode_basestring_def scanstring_escaped)


lemma takeWhile_digits:
  "\<not> is_digit c \<Longrightarrow> takeWhile is_digit (str_nat n @ c # rest) = str_nat n"
  "\<not> is_digit c \<Longrightarrow> dropWhile is_digit (str_nat n @ c # rest) = c # rest"
  using str_nat_digits [of n] by (simp_all add: takeWhile_append dropWhile_append)

lemma is_float_tail_end: "number_end c \<Longrightarrow> \<not> is_float_tail (c # rest)"
  by (simp add: is_float_tail_def number_end_def)

lemma match_number_str_nat:
  assumes "number_end c" and "neg \<longrightarrow> n \<noteq> 0" and "length (str_nat n) \<le> max_str_digits"
  shows "match_number ((if neg then ''-'' else []) @ str_nat n @ c # rest) =
           Inr (JInt (if neg then - int n else int n), c # rest)"
proof -
  obtain d ds where dd: "str_nat n = d # ds"
    using str_nat_not_Nil [of n] by (cases "str_nat n") auto
  have dig: "is_digit d" using str_nat_digits [of n] dd by simp
  then have nm: "d \<noteq> CHR ''-''" by (auto simp: is_digit_def)
  have nd: "\<not> is_digit c" using assms(1) by (simp add: number_end_def)
  show ?thesis
  proof (cases "d = CHR ''0''")
    case True
    with dd have "n = 0" using str_nat_leading_zero [of n] by simp
    with assms(2) have "\<not> neg" by simp
    with \<open>n = 0\<close> assms(1) max_str_digits_pos show ?thesis
      by (simp add: match_number_def str_nat_0 is_digit_def nat_of_digits_def digit_value_def
          is_float_tail_end Let_def)
  next
    case False
    have tw: "takeWhile is_digit (d # ds @ c # rest) = str_nat n"
      "dropWhile is_digit (d # ds @ c # rest) = c # rest"
      using takeWhile_digits [OF nd, of n rest] dd by simp_all
    have nod: "nat_of_digits (d # ds) = n"
      using nat_of_digits_str_nat [of n] dd by simp
    have len: "\<not> max_str_digits < Suc (length ds)"
      using assms(3) dd by simp
    from False dig nm show ?thesis
      by (simp add: match_number_def dd Let_def tw [unfolded dd] nod len
          is_float_tail_end [OF assms(1)] del: takeWhile.simps dropWhile.simps)
  qed
qed

lemma match_number_int_repr:
  assumes "number_end c" and "\<bar>i\<bar> < 10 ^ max_str_digits"
  shows "match_number (int_repr i @ c # rest) = Inr (JInt i, c # rest)"
proof (cases "i < 0")
  case True
  then have nz: "True \<longrightarrow> nat (- i) \<noteq> 0" by simp
  have len: "length (str_nat (nat (- i))) \<le> max_str_digits"
    using digits_within_limit [OF assms(2)] True by simp
  from match_number_str_nat [OF assms(1) nz len, of rest] True show ?thesis
    by (simp add: int_repr_def)
next
  case False
  have nz: "False \<longrightarrow> nat i \<noteq> 0" by simp
  have len: "length (str_nat (nat i)) \<le> max_str_digits"
    using digits_within_limit [OF assms(2)] False by simp
  from match_number_str_nat [OF assms(1) nz len, of rest] False show ?thesis
    by (simp add: int_repr_def)
qed

lemma int_repr_first:
  "\<exists>d ds. int_repr i = d # ds \<and> (d = CHR ''-'' \<or> is_digit d)"
proof (cases "i < 0")
  case True
  then show ?thesis by (simp add: int_repr_def)
next
  case False
  obtain d ds where dd: "str_nat (nat i) = d # ds"
    using str_nat_not_Nil [of "nat i"] by (cases "str_nat (nat i)") auto
  with str_nat_digits [of "nat i"] have "is_digit d" by simp
  with dd False show ?thesis by (simp add: int_repr_def)
qed

lemma scan_once_int:
  assumes "number_end c" and "\<bar>i\<bar> < 10 ^ max_str_digits"
  shows "scan_once (Suc fuel) (int_repr i @ c # rest) = Inr (JInt i, c # rest)"
proof -
  from int_repr_first [of i] obtain d ds where dd: "int_repr i = d # ds"
    and d: "d = CHR ''-'' \<or> is_digit d"
    by blast
  from d have "d \<notin> {CHR 0x22, CHR ''{'', CHR ''['', CHR ''n'', CHR ''t'', CHR ''f'', CHR ''N'', CHR ''I''}"
    by (auto simp: is_digit_def)
  then have "scan_once (Suc fuel) (d # ds @ c # rest) = match_number (d # ds @ c # rest)"
    by (simp add: startswith_def)
  with match_number_int_repr [OF assms, of rest] dd show ?thesis
    by simp
qed


lemma skip_ws_Cons:
  "is_json_ws c \<Longrightarrow> skip_ws (c # s) = skip_ws s"
  "\<not> is_json_ws c \<Longrightarrow> skip_ws (c # s) = c # s"
  by (simp_all add: skip_ws_def)

lemma skip_ws_spaces: "skip_ws (replicate k (CHR '' '') @ s) = skip_ws s"
  by (induction k) (simp_all add: skip_ws_Cons is_json_ws_def)

lemma skip_ws_newline_indent: "skip_ws (newline_indent indent level @ s) = skip_ws s"
  by (simp add: newline_indent_def skip_ws_Cons is_json_ws_def skip_ws_spaces)

lemma skip_ws_int_repr: "skip_ws (int_repr i @ s) = int_repr i @ s"
proof -
  from int_repr_first [of i] obtain d ds where dd: "int_repr i = d # ds"
    and d: "d = CHR ''-'' \<or> is_digit d"
    by blast
  from d have "\<not> is_json_ws d" by (auto simp: is_digit_def is_json_ws_def)
  then show ?thesis by (simp add: dd skip_ws_Cons)
qed

lemma encoded_keys:
  "encode_basestring ''page_number'' = CHR 0x22 # concat (map escape_char ''page_number'') @ [CHR 0x22]"
  "encode_basestring ''text'' = CHR 0x22 # concat (map escape_char ''text'') @ [CHR 0x22]"
  by (simp_all add: encode_basestring_def)

lemma page_chunk_unfold:
  "page_chunk indent level p =
     ''{'' @ newline_indent indent (Suc level) @
     encode_basestring ''page_number'' @ '': '' @ int_repr (page_number p) @
     '','' @ newline_indent indent (Suc level) @
     encode_basestring ''text'' @ '': '' @ encode_basestring (text' p) @
     newline_indent indent level @ ''}''"
  by (simp add: page_chunk_def)

lemma parse_object_text:
  "parse_object (Suc (Suc fuel))
     (encode_basestring ''text'' @ '': '' @ encode_basestring t @
      newline_indent indent level @ CHR ''}'' # rest) pairs =
   Inr (JDict (AList.update ''text'' (JStr t) pairs), rest)"
proof -
  have 1: "scanstring (concat (map escape_char ''text'') @
             CHR 0x22 # '': '' @ encode_basestring t @ newline_indent indent level @ CHR ''}'' # rest) [] =
           Inr (''text'', '': '' @ encode_basestring t @ newline_indent indent level @ CHR ''}'' # rest)"
    using scanstring_escaped [of "''text''" _ "[]"] by simp
  have 2: "scan_once (Suc fuel) (encode_basestring t @ newline_indent indent level @ CHR ''}'' # rest) =
           Inr (JStr t, newline_indent indent level @ CHR ''}'' # rest)"
    by (rule scan_once_string)
  have 3: "skip_ws (newline_indent indent level @ CHR ''}'' # rest) = CHR ''}'' # rest"
    by (simp add: skip_ws_newline_indent skip_ws_Cons is_json_ws_def)
  have 4: "skip_ws (encode_basestring t @ newline_indent indent level @ CHR ''}'' # rest) =
           encode_basestring t @ newline_indent indent level @ CHR ''}'' # rest"
    by (simp add: encode_basestring_def skip_ws_Cons is_json_ws_def)
  have "parse_object (Suc (Suc fuel))
     (CHR 0x22 # concat (map escape_char ''text'') @
        CHR 0x22 # '': '' @ encode_basestring t @ newline_indent indent level @ CHR ''}'' # rest) pairs =
   Inr (JDict (AList.update ''text'' (JStr t) pairs), rest)"
    apply (subst parse_object.simps)
    apply (simp only: list.case if_False if_True not_not refl 1 sum.case prod.case)
    apply (simp add: skip_ws_Cons is_json_ws_def 4 2 3 del: scan_once.simps)
    done
  then show ?thesis by (simp add: encoded_keys)
qed


lemma parse_object_page:
  assumes "\<bar>n\<bar> < 10 ^ max_str_digits"
  shows "parse_object (Suc (Suc (Suc fuel)))
     (encode_basestring ''page_number'' @ '': '' @ int_repr n @
      '','' @ newline_indent indent (Suc level) @
      encode_basestring ''text'' @ '': '' @ encode_basestring t @
      newline_indent indent level @ CHR ''}'' # rest) [] =
   Inr (JDict [(''page_number'', JInt n), (''text'', JStr t)], rest)"
proof -
  let ?member2 = "encode_basestring ''text'' @ '': '' @ encode_basestring t @
      newline_indent indent level @ CHR ''}'' # rest"
  let ?after_int = "CHR '','' # newline_indent indent (Suc level) @ ?member2"
  have 1: "scanstring (concat (map escape_char ''page_number'') @
             CHR 0x22 # '': '' @ int_repr n @ ?after_int) [] =
           Inr (''page_number'', '': '' @ int_repr n @ ?after_int)"
    using scanstring_escaped [of "''page_number''" _ "[]"] by simp
  have 2: "scan_once (Suc (Suc fuel)) (int_repr n @ ?after_int) = Inr (JInt n, ?after_int)"
    by (rule scan_once_int) (simp_all add: number_end_def is_digit_def assms)
  have 3: "skip_ws (newline_indent indent (Suc level) @ ?member2) = ?member2"
    by (simp add: skip_ws_newline_indent encode_basestring_def skip_ws_Cons is_json_ws_def)
  have 4: "parse_object (Suc (Suc fuel)) ?member2 [(''page_number'', JInt n)] =
           Inr (JDict [(''page_number'', JInt n), (''text'', JStr t)], rest)"
    using parse_object_text [of fuel t indent level rest "[(''page_number'', JInt n)]"]
    by simp
  have "parse_object (Suc (Suc (Suc fuel)))
     (CHR 0x22 # concat (map escape_char ''page_number'') @
        CHR 0x22 # '': '' @ int_repr n @ ?after_int) [] =
   Inr (JDict [(''page_number'', JInt n), (''text'', JStr t)], rest)"
    using 2 3 4
    apply (subst parse_object.simps)
    apply (simp only: list.case if_False if_True not_not refl 1 sum.case prod.case)
    apply (simp add: skip_ws_Cons is_json_ws_def skip_ws_int_repr
        del: scan_once.simps parse_object.simps)
    done
  then show ?thesis by (simp add: encoded_keys)
qed

lemma scan_once_page:
  assumes "\<bar>page_number p\<bar> < 10 ^ max_str_digits"
  shows "scan_once (Suc (Suc (Suc (Suc fuel)))) (page_chunk indent level p @ rest) =
     Inr (py_page p, rest)"
proof -
  let ?members = "encode_basestring ''page_number'' @ '': '' @ int_repr (page_number p) @
      '','' @ newline_indent indent (Suc level) @
      encode_basestring ''text'' @ '': '' @ encode_basestring (text' p) @
      newline_indent indent level @ CHR ''}'' # rest"
  have 1: "skip_ws (newline_indent indent (Suc level) @ ?members) = ?members"
    by (simp add: skip_ws_newline_indent encode_basestring_def skip_ws_Cons is_json_ws_def)
  obtain ms where ms: "?members = CHR 0x22 # ms"
    by (simp add: encode_basestring_def)
  have "scan_once (Suc (Suc (Suc (Suc fuel))))
          (CHR ''{'' # newline_indent indent (Suc level) @ ?members) =
        parse_object (Suc (Suc (Suc fuel))) ?members []"
    apply (subst scan_once.simps)
    apply (simp only: 1)
    apply (simp only: ms)
    apply simp
    done
  also have "\<dots> = Inr (py_page p, rest)"
    by (simp only: parse_object_page [OF assms] py_page_def)
  finally show ?thesis
    by (simp add: page_chunk_unfold)
qed


lemma join_map_Cons:
  "join sep (f x # map f xs) = f x @ concat (map (\<lambda>y. sep @ f y) xs)"
  by (induction xs arbitrary: x) simp_all

lemma length_concat_ge:
  "length xs \<le> length (concat (map (\<lambda>y. c # g y) xs))"
  by (induction xs) simp_all

lemma scan_once_page_fuel:
  assumes "4 \<le> fuel" and "\<bar>page_number p\<bar> < 10 ^ max_str_digits"
  shows "scan_once fuel (page_chunk indent level p @ rest) = Inr (py_page p, rest)"
proof -
  from assms have "fuel = Suc (Suc (Suc (Suc (fuel - 4))))"
    by simp
  then show ?thesis by (metis scan_once_page [OF assms(2)])
qed

lemma skip_ws_page: "skip_ws (page_chunk indent level p @ rest) =
    page_chunk indent level p @ rest"
  by (simp add: page_chunk_def skip_ws_Cons is_json_ws_def)

lemma page_first_char: "\<exists>cs. page_chunk indent level p @ rest = CHR ''{'' # cs"
  by (simp add: page_chunk_def)

lemma parse_array_pages:
  "length ps + 5 \<le> fuel \<Longrightarrow>
   \<forall>x\<in>set (p # ps). \<bar>page_number x\<bar> < 10 ^ max_str_digits \<Longrightarrow>
   parse_array fuel
     (page_chunk indent (Suc 0) p @
      concat (map (\<lambda>q. ('','' @ newline_indent indent (Suc 0)) @ page_chunk indent (Suc 0) q) ps) @
      newline_indent indent 0 @ CHR '']'' # rest) vals =
   Inr (JList (vals @ map py_page (p # ps)), rest)"
proof (induction ps arbitrary: p vals fuel)
  case Nil
  then obtain f where f: "fuel = Suc f" "4 \<le> f"
    by (cases fuel) auto
  from Nil.prems(2) have lp: "\<bar>page_number p\<bar> < 10 ^ max_str_digits" by simp
  have 1: "scan_once f (page_chunk indent (Suc 0) p @ newline_indent indent 0 @ CHR '']'' # rest) =
           Inr (py_page p, newline_indent indent 0 @ CHR '']'' # rest)"
    using f(2) lp by (rule scan_once_page_fuel)
  have 2: "skip_ws (newline_indent indent 0 @ CHR '']'' # rest) = CHR '']'' # rest"
    by (simp add: skip_ws_newline_indent skip_ws_Cons is_json_ws_def)
  show ?case
    using 1 2 by (simp add: f(1) del: scan_once.simps)
next
  case (Cons q qs)
  then obtain f where f: "fuel = Suc f" "length qs + 5 \<le> f"
    by (cases fuel) auto
  from Cons.prems(2) have lp: "\<bar>page_number p\<bar> < 10 ^ max_str_digits"
    and lq: "\<forall>x\<in>set (q # qs). \<bar>page_number x\<bar> < 10 ^ max_str_digits"
    by simp_all
  let ?tail = "concat (map (\<lambda>q. ('','' @ newline_indent indent (Suc 0)) @ page_chunk indent (Suc 0) q) qs) @
      newline_indent indent 0 @ CHR '']'' # rest"
  let ?next = "page_chunk indent (Suc 0) q @ ?tail"
  have "4 \<le> f" using f(2) by simp
  then have 1: "scan_once f (page_chunk indent (Suc 0) p @ CHR '','' # newline_indent indent (Suc 0) @ ?next) =
           Inr (py_page p, CHR '','' # newline_indent indent (Suc 0) @ ?next)"
    using lp by (rule scan_once_page_fuel)
  have 2: "skip_ws (newline_indent indent (Suc 0) @ ?next) = ?next"
    by (simp only: skip_ws_newline_indent skip_ws_page)
  have 3: "parse_array f ?next (vals @ [py_page p]) =
           Inr (JList ((vals @ [py_page p]) @ map py_page (q # qs)), rest)"
    using f(2) lq by (rule Cons.IH)
  have "parse_array (Suc f)
          (page_chunk indent (Suc 0) p @ CHR '','' # newline_indent indent (Suc 0) @ ?next) vals =
        Inr (JList (vals @ map py_page (p # q # qs)), rest)"
    apply (subst parse_array.simps)
    apply (simp only: 1 sum.case prod.case)
    apply (simp only: skip_ws_Cons(2) [of "CHR '',''", simplified is_json_ws_def, simplified]
        list.case)
    apply (simp only: 2 3)
    apply simp
    done
  then show ?case
    by (simp add: f(1) del: parse_array.simps scan_once.simps)
qed

lemma sequence_results_Inr: "sequence_results (map (\<lambda>x. Inr (f x)) xs) = Inr (map f xs)"
  by (induction xs) simp_all

lemma iterencode_page:
  assumes "\<bar>page_number p\<bar> < 10 ^ max_str_digits"
  shows "iterencode indent level (py_page p) = Inr (page_chunk indent level p)"
  by (simp add: py_page_def page_chunk_def str_int_within_limit [OF assms])

lemma iterencode_pages:
  assumes "\<forall>p\<in>set pages. \<bar>page_number p\<bar> < 10 ^ max_str_digits" and "pages \<noteq> []"
  shows "iterencode indent level (py_pages pages) =
           Inr (''['' @ newline_indent indent (Suc level) @
                join ('','' @ newline_indent indent (Suc level))
                  (map (page_chunk indent (Suc level)) pages) @
                newline_indent indent level @ '']'')"
proof -
  have "map (iterencode indent (Suc level)) (map py_page pages) =
        map (\<lambda>p. Inr (page_chunk indent (Suc level) p)) pages"
    using assms(1) by (simp add: iterencode_page)
  then have "sequence_results (map (iterencode indent (Suc level)) (map py_page pages)) =
             Inr (map (page_chunk indent (Suc level)) pages)"
    by (simp only: sequence_results_Inr)
  with assms(2) show ?thesis
    by (simp add: py_pages_def del: map_map)
qed

lemma json_loads_pages:
  assumes "\<forall>p\<in>set (p # ps). \<bar>page_number p\<bar> < 10 ^ max_str_digits"
  shows "json_loads (''['' @ newline_indent 2 (Suc 0) @
                join ('','' @ newline_indent 2 (Suc 0)) (map (page_chunk 2 (Suc 0)) (p # ps)) @
                newline_indent 2 0 @ '']'') = Inr (py_pages (p # ps))"
proof -
  let ?items = "page_chunk 2 (Suc 0) p @
      concat (map (\<lambda>q. ('','' @ newline_indent 2 (Suc 0)) @ page_chunk 2 (Suc 0) q) ps) @
      newline_indent 2 0 @ CHR '']'' # []"
  let ?out = "CHR ''['' # newline_indent 2 (Suc 0) @ ?items"
  have out: "''['' @ newline_indent 2 (Suc 0) @
                join ('','' @ newline_indent 2 (Suc 0)) (map (page_chunk 2 (Suc 0)) (p # ps)) @
                newline_indent 2 0 @ '']'' = ?out"
    using join_map_Cons [of "CHR '','' # newline_indent 2 (Suc 0)" "page_chunk 2 (Suc 0)" p ps]
    by simp
  have 1: "skip_ws ?out = ?out"
    by (simp add: skip_ws_Cons is_json_ws_def)
  have 2: "skip_ws (newline_indent 2 (Suc 0) @ ?items) = ?items"
    by (simp only: skip_ws_newline_indent skip_ws_page)
  obtain cs where cs: "?items = CHR ''{'' # cs"
    using page_first_char by blast
  have "length ps \<le> length (concat (map (\<lambda>q. ('','' @ newline_indent 2 (Suc 0)) @ page_chunk 2 (Suc 0) q) ps))"
    using length_concat_ge [of ps "CHR '',''" "\<lambda>q. newline_indent 2 (Suc 0) @ page_chunk 2 (Suc 0) q"]
    by simp
  then have len: "length ps + 5 \<le> length ?out"
    by (simp add: newline_indent_def page_chunk_def)
  have 3: "parse_array (length ?out) ?items [] = Inr (JList ([] @ map py_page (p # ps)), [])"
    using len assms by (rule parse_array_pages)
  have "scan_once (Suc (length ?out)) ?out = parse_array (length ?out) ?items []"
    apply (subst scan_once.simps)
    apply (simp only: 2)
    apply (simp only: cs)
    apply simp
    done
  with 3 have "scan_once (Suc (length ?out)) (skip_ws ?out) = Inr (py_pages (p # ps), [])"
    by (simp only: 1 py_pages_def append_Nil)
  then have "json_loads ?out = Inr (py_pages (p # ps))"
    by (simp only: json_loads_def sum.case prod.case) (simp add: skip_ws_def)
  then show ?thesis by (simp only: out)
qed

lemma py_pages_inj: "py_pages a = py_pages b \<Longrightarrow> a = b"
proof -
  have "inj py_page"
    by (rule injI) (simp add: py_page_def)
  then show "py_pages a = py_pages b \<Longrightarrow> a = b"
    by (simp add: py_pages_def inj_map_eq_map)
qed

lemma escape_char_non_ascii:
  assumes "128 \<le> (of_char c :: nat)"
  shows "escape_char c = [c]"
proof -
  have ne: "c \<noteq> d" if "(of_char d :: nat) < 128" for d
    using assms that by (metis not_less)
  have "c \<noteq> CHR 0x22" "c \<noteq> CHR 0x5C" "c \<noteq> CHR 0x0A" "c \<noteq> CHR 0x0D" "c \<noteq> CHR 0x09"
    "c \<noteq> CHR 0x08" "c \<noteq> CHR 0x0C"
    by (rule ne, simp)+
  moreover have "\<not> (of_char c :: nat) < 32" using assms by simp
  ultimately show ?thesis by (simp add: escape_char_def)
qed


lemma page_chunk_layout:
  "''  '' @ page_chunk 2 (Suc 0) p =
     ''  {'' @ [CHR 0x0A] @
     ''    '' @ [CHR 0x22] @ ''page_number'' @ [CHR 0x22] @ '': '' @ int_repr (page_number p) @
       '','' @ [CHR 0x0A] @
     ''    '' @ [CHR 0x22] @ ''text'' @ [CHR 0x22] @ '': '' @
       [CHR 0x22] @ concat (map escape_char (text' p)) @ [CHR 0x22] @ [CHR 0x0A] @
     ''  }''"
  by (simp add: page_chunk_def newline_indent_def encode_basestring_def escape_char_def
      numeral_2_eq_2 numeral_3_eq_3)

lemma pages_layout:
  "''['' @ newline_indent 2 (Suc 0) @
     join ('','' @ newline_indent 2 (Suc 0)) (map (page_chunk 2 (Suc 0)) (p # ps)) @
     newline_indent 2 0 @ '']'' =
   ''['' @ [CHR 0x0A] @ (''  '' @ page_chunk 2 (Suc 0) p) @
     concat (map (\<lambda>q. '','' @ [CHR 0x0A] @ (''  '' @ page_chunk 2 (Suc 0) q)) ps) @
     [CHR 0x0A] @ '']''"
  using join_map_Cons [of "CHR '','' # newline_indent 2 (Suc 0)" "page_chunk 2 (Suc 0)" p ps]
  by (simp add: newline_indent_def numeral_2_eq_2)

text \<open>
  The layout for one page: indentation width 2, the non-ASCII character copied, the
  newline and the quote escaped.
\<close>

lemma extract_to_json_example:
  "extract_to_json [\<lparr>page_number = 7, text' = [CHR ''a'', CHR 0xE9, CHR 0x0A, CHR 0x22]\<rparr>] =
     Inr (''['' @ [CHR 0x0A] @
          ''  {'' @ [CHR 0x0A] @
          ''    '' @ [CHR 0x22] @ ''page_number'' @ [CHR 0x22] @ '': 7,'' @ [CHR 0x0A] @
          ''    '' @ [CHR 0x22] @ ''text'' @ [CHR 0x22] @ '': '' @
                [CHR 0x22, CHR ''a'', CHR 0xE9, CHR 0x5C, CHR ''n'', CHR 0x5C, CHR 0x22, CHR 0x22] @
                [CHR 0x0A] @
          ''  }'' @ [CHR 0x0A] @
          '']'')"
  by (simp add: extract_to_json_def json_dumps_def py_pages_def py_page_def newline_indent_def
      encode_basestring_def escape_char_def str_int_def int_repr_def max_str_digits_def
      str_nat.simps digit_char_def numeral_2_eq_2 numeral_3_eq_3)

text \<open>
  Claim C4. For every sequence of page records whose page numbers have absolute value
  below \<open>10 ^ max_str_digits\<close>, the JSON formatter returns a text, and parsing that text
  gives back the value of the original sequence: the same list of dictionaries, each
  with the same page number and the same text (different sequences have different
  values, \<open>py_pages_inj\<close>). The text is the bracketed list of the page objects, one per
  record, at indentation width 2: each object two spaces in, its two members four
  spaces in, items separated by a comma and a newline. The page number is written as its
  decimal numeral, and every non-ASCII character of a page text is written as it is.
\<close>

theorem json_round_trip:
  assumes "\<forall>p\<in>set pages. \<bar>page_number p\<bar> < 10 ^ max_str_digits"
  shows "\<exists>out number esc.
     (\<forall>p\<in>set pages. int_numeral (number p) (page_number p)) \<and>
     (\<forall>c. 128 \<le> (of_char c :: nat) \<longrightarrow> esc c = [c]) \<and>
     extract_to_json pages = Inr out \<and>
     json_loads out = Inr (py_pages pages) \<and>
     out =
       (case pages of
          [] \<Rightarrow> ''[]''
        | p # ps \<Rightarrow>
            ''['' @ [CHR 0x0A] @
            (''  {'' @ [CHR 0x0A] @
              ''    '' @ [CHR 0x22] @ ''page_number'' @ [CHR 0x22] @ '': '' @ number p @ '','' @ [CHR 0x0A] @
              ''    '' @ [CHR 0x22] @ ''text'' @ [CHR 0x22] @ '': '' @
                [CHR 0x22] @ concat (map esc (text' p)) @ [CHR 0x22] @ [CHR 0x0A] @
              ''  }'') @
            concat (map (\<lambda>q. '','' @ [CHR 0x0A] @
              ''  {'' @ [CHR 0x0A] @
              ''    '' @ [CHR 0x22] @ ''page_number'' @ [CHR 0x22] @ '': '' @ number q @ '','' @ [CHR 0x0A] @
              ''    '' @ [CHR 0x22] @ ''text'' @ [CHR 0x22] @ '': '' @
                [CHR 0x22] @ concat (map esc (text' q)) @ [CHR 0x22] @ [CHR 0x0A] @
              ''  }'') ps) @
            [CHR 0x0A] @ '']'')"
proof -
  let ?number = "\<lambda>p. int_repr (page_number p)"
  have n: "\<forall>p\<in>set pages. int_numeral (?number p) (page_number p)"
    by (simp add: int_numeral_int_repr)
  have e: "\<forall>c. 128 \<le> (of_char c :: nat) \<longrightarrow> escape_char c = [c]"
    by (simp add: escape_char_non_ascii)
  show ?thesis
  proof (cases pages)
    case Nil
    have "extract_to_json [] = Inr ''[]''"
      by (simp add: extract_to_json_def json_dumps_def py_pages_def)
    moreover have "json_loads ''[]'' = Inr (py_pages [])"
      by (simp add: json_loads_def py_pages_def skip_ws_Cons is_json_ws_def skip_ws_def)
    ultimately show ?thesis
      using e unfolding Nil by (intro exI [of _ "''[]''"] exI [of _ ?number] exI [of _ escape_char]) simp
  next
    case (Cons p ps)
    let ?out = "''['' @ newline_indent 2 (Suc 0) @
                join ('','' @ newline_indent 2 (Suc 0)) (map (page_chunk 2 (Suc 0)) (p # ps)) @
                newline_indent 2 0 @ '']''"
    from assms Cons have lim: "\<forall>p\<in>set (p # ps). \<bar>page_number p\<bar> < 10 ^ max_str_digits"
      by simp
    have d: "extract_to_json pages = Inr ?out"
      unfolding extract_to_json_def json_dumps_def Cons
      using iterencode_pages [OF lim, of 2 0] by simp
    have l: "json_loads ?out = Inr (py_pages pages)"
      unfolding Cons using lim by (rule json_loads_pages)
    have o: "?out =
       (case pages of
          [] \<Rightarrow> ''[]''
        | p # ps \<Rightarrow>
            ''['' @ [CHR 0x0A] @
            (''  {'' @ [CHR 0x0A] @
              ''    '' @ [CHR 0x22] @ ''page_number'' @ [CHR 0x22] @ '': '' @ ?number p @ '','' @ [CHR 0x0A] @
              ''    '' @ [CHR 0x22] @ ''text'' @ [CHR 0x22] @ '': '' @
                [CHR 0x22] @ concat (map escape_char (text' p)) @ [CHR 0x22] @ [CHR 0x0A] @
              ''  }'') @
            concat (map (\<lambda>q. '','' @ [CHR 0x0A] @
              ''  {'' @ [CHR 0x0A] @
              ''    '' @ [CHR 0x22] @ ''page_number'' @ [CHR 0x22] @ '': '' @ ?number q @ '','' @ [CHR 0x0A] @
              ''    '' @ [CHR 0x22] @ ''text'' @ [CHR 0x22] @ '': '' @
                [CHR 0x22] @ concat (map escape_char (text' q)) @ [CHR 0x22] @ [CHR 0x0A] @
              ''  }'') ps) @
            [CHR 0x0A] @ '']'')"
      unfolding Cons list.case pages_layout
      by (simp only: page_chunk_layout)
    from n e d l o show ?thesis
      by (intro exI [of _ ?out] exI [of _ ?number] exI [of _ escape_char] conjI)
  qed
qed

theorem json_round_trip_witness:
  "\<exists>out number esc.
     (\<forall>p\<in>set [\<lparr>page_number = 7, text' = [CHR ''a'', CHR 0xE9, CHR 0x0A, CHR 0x22]\<rparr>]. int_numeral (number p) (page_number p)) \<and>
     (\<forall>c. 128 \<le> (of_char c :: nat) \<longrightarrow> esc c = [c]) \<and>
     extract_to_json [\<lparr>page_number = 7, text' = [CHR ''a'', CHR 0xE9, CHR 0x0A, CHR 0x22]\<rparr>] = Inr out \<and>
     json_loads out = Inr (py_pages [\<lparr>page_number = 7, text' = [CHR ''a'', CHR 0xE9, CHR 0x0A, CHR 0x22]\<rparr>]) \<and>
     out =
       (case [\<lparr>page_number = 7, text' = [CHR ''a'', CHR 0xE9, CHR 0x0A, CHR 0x22]\<rparr>] of
          [] \<Rightarrow> ''[]''
        | p # ps \<Rightarrow>
            ''['' @ [CHR 0x0A] @
            (''  {'' @ [CHR 0x0A] @
              ''    '' @ [CHR 0x22] @ ''page_number'' @ [CHR 0x22] @ '': '' @ number p @ '','' @ [CHR 0x0A] @
              ''    '' @ [CHR 0x22] @ ''text'' @ [CHR 0x22] @ '': '' @
                [CHR 0x22] @ concat (map esc (text' p)) @ [CHR 0x22] @ [CHR 0x0A] @
              ''  }'') @
            concat (map (\<lambda>q. '','' @ [CHR 0x0A] @
              ''  {'' @ [CHR 0x0A] @
              ''    '' @ [CHR 0x22] @ ''page_number'' @ [CHR 0x22] @ '': '' @ number q @ '','' @ [CHR 0x0A] @
              ''    '' @ [CHR 0x22] @ ''text'' @ [CHR 0x22] @ '': '' @
                [CHR 0x22] @ concat (map esc (text' q)) @ [CHR 0x22] @ [CHR 0x0A] @
              ''  }'') ps) @
            [CHR 0x0A] @ '']'')"
proof (rule json_round_trip)
  have "\<bar>7::int\<bar> < 10 ^ max_str_digits"
    by (rule small_within_limit) simp
  then show "\<forall>p\<in>set [\<lparr>page_number = 7, text' = [CHR ''a'', CHR 0xE9, CHR 0x0A, CHR 0x22]\<rparr>]. \<bar>page_number p\<bar> < 10 ^ max_str_digits"
    by simp
qed

text \<open>
  Without the bound there is nothing to parse back: for a record whose page number is
  \<open>10 ^ max_str_digits\<close> the encoder raises.
\<close>

theorem extract_to_json_huge_page_number:
  "extract_to_json [\<lparr>page_number = 10 ^ max_str_digits, text' = ''body''\<rparr>] =
     Inl (ValueError ''Exceeds the limit (4300 digits) for integer string conversion'')"
proof -
  have "str_int (10 ^ max_str_digits) =
          Inl (ValueError ''Exceeds the limit (4300 digits) for integer string conversion'')"
    by (rule str_int_beyond_limit) simp
  then show ?thesis
    by (simp add: extract_to_json_def json_dumps_def py_pages_def py_page_def)
qed

end
